theory Spec2Isabelle
  imports Main "HOL-Library.List_Lexorder" "HOL-Library.AList" "HOL-Library.Multiset"
begin

section \<open>Strings, bytes and errors\<close>

text \<open>
  A Python \<open>str\<close> is a sequence of Unicode code points; \<open>len\<close> counts code points and
  comparison is lexicographic on them. A string is therefore a list of code points, ordered by
  the lexicographic order on lists. A \<open>bytes\<close> object is a list of byte values.
\<close>

type_synonym uchar = nat
type_synonym ustring = "uchar list"
type_synonym byte = nat

datatype error = OSError | AttributeError | UnicodeEncodeError | UnicodeDecodeError

section \<open>The regular expressions of the module, and how \<open>re\<close> runs them\<close>

text \<open>
  The patterns of \<open>parseLaws.py\<close> are sequences of single-character atoms (a literal, the
  dot, a bracketed class), each with a quantifier (\<open>?\<close>, \<open>*?\<close>, \<open>+\<close>, \<open>{m,n}\<close>, or
  none), and the anchor \<open>$\<close>. The class item \<open>Space\<close> is \<open>\s\<close>, which on \<open>str\<close> patterns
  is the Unicode white space. The dot is only used in patterns run with \<open>re.S\<close>, where it
  accepts every character.
\<close>

definition is_space :: "uchar \<Rightarrow> bool" where
  "is_space c \<longleftrightarrow>
     (9 \<le> c \<and> c \<le> 13) \<or> (28 \<le> c \<and> c \<le> 32) \<or> c = 0x85 \<or> c = 0xA0 \<or> c = 0x1680 \<or>
     (0x2000 \<le> c \<and> c \<le> 0x200A) \<or> c = 0x2028 \<or> c = 0x2029 \<or> c = 0x202F \<or>
     c = 0x205F \<or> c = 0x3000"

datatype cset = Ch uchar | Rng uchar uchar | Space

fun in_cset :: "cset \<Rightarrow> uchar \<Rightarrow> bool" where
  "in_cset (Ch d) c = (c = d)"
| "in_cset (Rng lo hi) c = (lo \<le> c \<and> c \<le> hi)"
| "in_cset Space c = is_space c"

datatype atom = Sym uchar | Any | Class "cset list"

fun atom_ok :: "atom \<Rightarrow> uchar \<Rightarrow> bool" where
  "atom_ok (Sym d) c = (c = d)"
| "atom_ok Any c = True"
| "atom_ok (Class items) c = list_ex (\<lambda>i. in_cset i c) items"

text \<open>
  \<open>Rep a lo hi lazy\<close> repeats the atom \<open>a\<close> at least \<open>lo\<close> times and at most \<open>hi\<close> times
  (\<open>None\<close>: no bound), preferring fewer repetitions when \<open>lazy\<close> and more otherwise.
  \<open>Eos\<close> is \<open>$\<close> without \<open>re.M\<close>: the end of the string, or just before a newline that
  ends the string.
\<close>

datatype node = Rep atom nat "nat option" bool | Eos

type_synonym pattern = "node list"

abbreviation one :: "atom \<Rightarrow> node" where "one a \<equiv> Rep a 1 (Some 1) False"
abbreviation opt :: "atom \<Rightarrow> node" where "opt a \<equiv> Rep a 0 (Some 1) False"
abbreviation lazy_star :: "atom \<Rightarrow> node" where "lazy_star a \<equiv> Rep a 0 None True"
abbreviation plus_g :: "atom \<Rightarrow> node" where "plus_g a \<equiv> Rep a 1 None False"
abbreviation rep :: "atom \<Rightarrow> nat \<Rightarrow> nat \<Rightarrow> node" where "rep a m n \<equiv> Rep a m (Some n) False"

definition lit :: "ustring \<Rightarrow> pattern" where
  "lit k = map (\<lambda>c. one (Sym c)) k"

text \<open>
  The backtracking matcher: \<open>backtrack p s\<close> lists what is left of \<open>s\<close> after each way of
  matching \<open>p\<close> at the start of \<open>s\<close>, in the order in which the engine tries them. The
  engine takes the first.
\<close>

fun backtrack :: "pattern \<Rightarrow> ustring \<Rightarrow> ustring list" where
  "backtrack [] s = [s]"
| "backtrack (Eos # p) s = (if s = [] \<or> s = [10] then backtrack p s else [])"
| "backtrack (Rep a lo hi lazy # p) [] = (if lo = 0 then backtrack p [] else [])"
| "backtrack (Rep a lo hi lazy # p) (c # cs) =
     (let more = (if atom_ok a c \<and> hi \<noteq> Some 0
                  then backtrack (Rep a (lo - 1) (map_option (\<lambda>h. h - 1) hi) lazy # p) cs
                  else []);
          stop = (if lo = 0 then backtrack p (c # cs) else [])
      in if lazy then stop @ more else more @ stop)"

definition match_at :: "pattern \<Rightarrow> ustring \<Rightarrow> ustring option" where
  "match_at p s = (case backtrack p s of [] \<Rightarrow> None | r # _ \<Rightarrow> Some (take (length s - length r) s))"

text \<open>
  The scan shared by \<open>re.findall\<close> and \<open>re.sub\<close>: from left to right, the leftmost match is
  taken and the scan goes on where it ends; a character at which nothing matches is passed
  over. After an empty match the next match at the same position has to be non-empty
  (\<open>adv\<close>).
\<close>

datatype piece = Gap uchar | Hit ustring

function scan :: "pattern \<Rightarrow> bool \<Rightarrow> ustring \<Rightarrow> piece list" where
  "scan p adv s =
     (case filter (\<lambda>r. adv \<longrightarrow> length r < length s) (backtrack p s) of
        [] \<Rightarrow> (case s of [] \<Rightarrow> [] | c # cs \<Rightarrow> Gap c # scan p False cs)
      | r # _ \<Rightarrow> Hit (take (length s - length r) s) #
          (if length r < length s then scan p False r else scan p True s))"
  by pat_completeness auto
termination
proof (relation "measure (\<lambda>(p, adv, s). 2 * length s + (if adv then 0 else 1))", goal_cases)
  case 1
  show ?case by simp
next
  case (2 p adv s c cs)
  then show ?case by simp
next
  case (3 p adv s r rs)
  then show ?case by simp
next
  case (4 p adv s r rs)
  from 4(1) have "r \<in> set (filter (\<lambda>r. adv \<longrightarrow> length r < length s) (backtrack p s))"
    by simp
  with 4(2) have "\<not> adv" by simp
  then show ?case by simp
qed

declare scan.simps [simp del]

fun hits :: "piece list \<Rightarrow> ustring list" where
  "hits [] = []"
| "hits (Gap c # ps) = hits ps"
| "hits (Hit m # ps) = m # hits ps"

fun subst :: "ustring \<Rightarrow> piece list \<Rightarrow> ustring" where
  "subst repl [] = []"
| "subst repl (Gap c # ps) = c # subst repl ps"
| "subst repl (Hit m # ps) = repl @ subst repl ps"

definition findall :: "pattern \<Rightarrow> ustring \<Rightarrow> ustring list" where
  "findall p s = hits (scan p False s)"

definition sub :: "pattern \<Rightarrow> ustring \<Rightarrow> ustring \<Rightarrow> ustring" where
  "sub p repl s = subst repl (scan p False s)"

section \<open>The pattern catalogue\<close>

text \<open>
  Hebrew letters are written by code point: alef is 0x5D0, he 0x5D4, shin 0x5E9, tav 0x5EA.
  Every citation pattern is a keyword followed by the same tail: \<open>.*?\<close>, an optional
  class holding he alone, the letters tav and shin, one or two characters of the class
  alef to tav or the double quote, \<open>.*?\<close> again, and \<open>[0-9]{4}\<close>.
\<close>

definition citation_re :: "ustring \<Rightarrow> pattern" where
  "citation_re kw =
     lit kw @ [lazy_star Any, opt (Class [Ch 0x5D4])] @ lit [0x5EA, 0x5E9] @
     [rep (Class [Rng 0x5D0 0x5EA, Ch 0x22]) 1 2, lazy_star Any, rep (Class [Rng 0x30 0x39]) 4 4]"

definition CITATION_RES :: "(string \<times> pattern) list" where
  "CITATION_RES =
    [(''COMMANDS_RE'', citation_re [0x5E4, 0x5E7, 0x5D5, 0x5D3, 0x5D4]),
     (''COMMANDS2_RE'', citation_re [0x5E4, 0x5E7, 0x5D5, 0x5D3, 0x5EA]),
     (''COMMANDS3_RE'', citation_re [0x5E4, 0x5E7, 0x5D5, 0x5D3, 0x5D5, 0x5EA]),
     (''LAWS_RE'', citation_re [0x5D7, 0x5D5, 0x5E7]),
     (''REGULATIONS_RE'', citation_re [0x5EA, 0x5E7, 0x5E0, 0x5D4]),
     (''REGULATIONS2_RE'', citation_re [0x5EA, 0x5E7, 0x5E0, 0x5EA]),
     (''REGULATIONS3_RE'', citation_re [0x5EA, 0x5E7, 0x5E0, 0x5D5, 0x5EA]),
     (''INSTRUCTIONS_RE'', citation_re [0x5D4, 0x5D5, 0x5E8, 0x5D0, 0x5D4]),
     (''INSTRUCTIONS2_RE'', citation_re [0x5D4, 0x5D5, 0x5E8, 0x5D0, 0x5EA]),
     (''INSTRUCTIONS3_RE'', citation_re [0x5D4, 0x5D5, 0x5E8, 0x5D0, 0x5D5, 0x5EA])]"

text \<open>Every action pattern is a keyword followed by \<open>[ .;,\s]\<close>.\<close>

definition WORD_END :: "cset list" where
  "WORD_END = [Ch 0x20, Ch 0x2E, Ch 0x3B, Ch 0x2C, Space]"

definition action_re :: "ustring \<Rightarrow> pattern" where
  "action_re kw = lit kw @ [one (Class WORD_END)]"

definition ACTION_KEYWORDS :: "(string \<times> ustring) list" where
  "ACTION_KEYWORDS =
    [(''INSTRUCTED_RE'', [0x5D4, 0x5D5, 0x5E8, 0x5D4]),
     (''INSTRUCTED2_RE'', [0x5D4, 0x5E0, 0x5D7, 0x5D4]),
     (''OVERSAW_RE'', [0x5E4, 0x5D9, 0x5E7, 0x5D7]),
     (''SET_RE'', [0x5E7, 0x5D1, 0x5E2]),
     (''APPROVED_RE'', [0x5D0, 0x5D9, 0x5E9, 0x5E8]),
     (''ALLOWED_RE'', [0x5D4, 0x5EA, 0x5D9, 0x5E8]),
     (''SET2_RE'', [0x5D4, 0x5DB, 0x5E8, 0x5D9, 0x5E2])]"

definition ACTION_RES :: "(string \<times> pattern) list" where
  "ACTION_RES = map (\<lambda>(label, kw). (label, action_re kw)) ACTION_KEYWORDS"

text \<open>
  Four entity patterns are a construct-state phrase followed by \<open>.*?[ .;,\s]\<close>; the
  others are fixed phrases, some letters of which are optional.
\<close>

definition entity_with_word :: "ustring \<Rightarrow> pattern" where
  "entity_with_word k = lit k @ [lazy_star Any, one (Class WORD_END)]"

definition ENTITIES_RES :: "(string \<times> pattern) list" where
  "ENTITIES_RES =
    [(''SUPERVISOR_RE'', entity_with_word [0x5DE, 0x5E4, 0x5E7, 0x5D7, 0x20, 0x5D4]),
     (''SUPERVISOR2_RE'', entity_with_word [0x5DE, 0x5E4, 0x5E7, 0x5D7, 0x20, 0x5E2, 0x5DC, 0x20]),
     (''SUPERIOR_RE'',
        entity_with_word [0x5DE, 0x5DE, 0x5D5, 0x5E0, 0x5D4, 0x20, 0x5E2, 0x5DC, 0x20]),
     (''TESTER_RE'',
        [opt (Sym 0x5D4)] @ lit [0x5D1, 0x5D5, 0x5D3, 0x5E7, 0x20] @
        [opt (Sym 0x5D4)] @ lit [0x5DE, 0x5D5, 0x5E1, 0x5DE, 0x5DA]),
     (''BUILDER_RE'',
        [opt (Sym 0x5D4)] @ lit [0x5D1, 0x5D5, 0x5E0, 0x5D4, 0x20] @
        [opt (Sym 0x5D4)] @ lit [0x5DE, 0x5E7, 0x5E6, 0x5D5, 0x5E2, 0x5D9]),
     (''CONTRACTOR_RE'',
        lit [0x5DE, 0x5D1, 0x5E6, 0x5E2, 0x20] @ [opt (Sym 0x5D4)] @
        lit [0x5D1, 0x5E0, 0x5D9, 0x5D4]),
     (''CONTRACTOR2_RE'', lit [0x5E7, 0x5D1, 0x5DC, 0x5DF]),
     (''INSPECTION_INSTITUTE_RE'',
        lit [0x5DE, 0x5D5, 0x5E1, 0x5D3, 0x20] @ [opt (Sym 0x5D4)] @
        lit [0x5D1, 0x5D9, 0x5E7, 0x5D5, 0x5E8, 0x5EA, 0x20] @ [opt (Sym 0x5D4)] @
        lit [0x5DE, 0x5D5, 0x5E1, 0x5DE, 0x5DA]),
     (''PLANNER_RE'', entity_with_word [0x5DE, 0x5EA, 0x5DB, 0x5E0, 0x5DF, 0x20]),
     (''SIGNALING_PERSON_RE'',
        [opt (Sym 0x5D4)] @
        lit [0x5DE, 0x5D5, 0x5E1, 0x5DE, 0x5DA, 0x20, 0x5DC, 0x5DE, 0x5EA, 0x5DF, 0x20,
             0x5D0, 0x5D9, 0x5EA, 0x5D5, 0x5EA]),
     (''EMPLOYER_RE'', [opt (Sym 0x5D4)] @ lit [0x5DE, 0x5E2, 0x5E1, 0x5D9, 0x5E7])]"

definition LONGEST_POSSIBLE_CITATION_LENGTH :: nat where
  "LONGEST_POSSIBLE_CITATION_LENGTH = 200"

definition UNICODE_CHARS_TO_IGNORE :: "uchar list" where
  "UNICODE_CHARS_TO_IGNORE = [0x2003, 0x3BC, 0xFC]"

definition ACTIONS_X :: nat where "ACTIONS_X = 10"
definition ENTITIES_X :: nat where "ENTITIES_X = 20"
definition LAWS_X :: nat where "LAWS_X = 30"
definition CITATIONS_X :: nat where "CITATIONS_X = 40"

section \<open>Extraction and normalisation\<close>

definition apply_filter_on_text :: "ustring \<Rightarrow> (string \<times> pattern) list \<Rightarrow> ustring list" where
  "apply_filter_on_text txt filters =
     fold (\<lambda>pattern results. results @ findall pattern txt) (map snd filters) []"

definition get_citations_from_text :: "ustring \<Rightarrow> ustring list" where
  "get_citations_from_text txt = apply_filter_on_text txt CITATION_RES"

definition get_actions_from_text :: "ustring \<Rightarrow> ustring list" where
  "get_actions_from_text txt = apply_filter_on_text txt ACTION_RES"

definition get_entities_from_test :: "ustring \<Rightarrow> ustring list" where
  "get_entities_from_test txt = apply_filter_on_text txt ENTITIES_RES"

definition replace_char :: "uchar \<Rightarrow> uchar \<Rightarrow> ustring \<Rightarrow> ustring" where
  "replace_char old new txt = map (\<lambda>x. if x = old then new else x) txt"

definition remove_weird_unicode :: "ustring \<Rightarrow> ustring" where
  "remove_weird_unicode txt = fold (\<lambda>c t. replace_char c 0x20 t) UNICODE_CHARS_TO_IGNORE txt"

definition clean_list_item :: "ustring \<Rightarrow> ustring" where
  "clean_list_item item = sub [plus_g (Sym 10)] [0x20] item"

definition TRAILING :: "cset list" where
  "TRAILING = [Ch 0x2E, Ch 0x2C, Ch 0x3B, Ch 0x22, Ch 0x5B, Ch 0x5D, Space, Ch 0x3A]"

definition remove_trailing_chars :: "ustring \<Rightarrow> ustring" where
  "remove_trailing_chars s = sub [plus_g (Class TRAILING), Eos] [] s"

text \<open>
  The body of the loop of \<open>parse_laws\<close> from the repaired text on: the three extractions,
  sorted; trailing characters are removed from actions and entities, and citations of 200
  characters or more are dropped after sorting.
\<close>

record details =
  citations :: "ustring list"
  actions :: "ustring list"
  entities :: "ustring list"

definition law_details :: "ustring \<Rightarrow> details" where
  "law_details txt =
     (let cits = get_citations_from_text txt;
          acts = sort (map remove_trailing_chars (get_actions_from_text txt));
          ents = sort (map remove_trailing_chars (get_entities_from_test txt))
      in \<lparr>citations = filter (\<lambda>x. length x < LONGEST_POSSIBLE_CITATION_LENGTH) (sort cits),
          actions = acts,
          entities = ents\<rparr>)"

section \<open>The corpus loop\<close>

text \<open>
  A directory entry as \<open>parse_laws\<close> sees it: its name, whether it is a file, and what
  opening it, parsing it and taking the text of its body gives (any of the three can raise).
  The repair \<open>txt.encode('windows-1252').decode('windows-1255')\<close> is the parameter \<open>recode\<close>:
  the two code pages belong to the Python library; it raises on a character or byte that
  has no place in them. The dictionary \<open>laws\<close> is an association list in insertion order.
  What the function prints (the names, and the totals at the end) is not modelled beyond the
  totals themselves.
\<close>

record dir_entry =
  name :: ustring
  is_file :: bool
  body_text :: "error + ustring"

record corpus =
  laws :: "(ustring \<times> details) list"
  all_actions :: "ustring set"
  all_entities :: "ustring set"
  all_citations :: "ustring set"
  tot_cites :: nat
  tot_actions :: nat
  tot_entities :: nat

definition endswith :: "ustring \<Rightarrow> ustring \<Rightarrow> bool" where
  "endswith s suf \<longleftrightarrow> length suf \<le> length s \<and> drop (length s - length suf) s = suf"

definition skipped :: "dir_entry \<Rightarrow> bool" where
  "skipped d \<longleftrightarrow> \<not> is_file d \<or> \<not> endswith (name d) [0x68, 0x74, 0x6D]"

definition read_law :: "(ustring \<Rightarrow> error + ustring) \<Rightarrow> dir_entry \<Rightarrow> error + ustring" where
  "read_law recode d =
     (case body_text d of
        Inl e \<Rightarrow> Inl e
      | Inr txt \<Rightarrow> recode (remove_weird_unicode txt))"

text \<open>The three \<open>update\<close> statements that fold one law's details into the sets of the corpus.\<close>

definition update_sets :: "details \<Rightarrow> corpus \<Rightarrow> corpus" where
  "update_sets det st =
     st\<lparr>all_actions := all_actions st \<union> set (actions det),
        all_entities := all_entities st \<union> set (entities det),
        all_citations := all_citations st \<union> set (citations det)\<rparr>"

definition parse_step ::
  "(ustring \<Rightarrow> error + ustring) \<Rightarrow> dir_entry \<Rightarrow> corpus \<Rightarrow> error + corpus" where
  "parse_step recode d st =
     (if skipped d then Inr st
      else case read_law recode d of
        Inl e \<Rightarrow> Inl e
      | Inr txt \<Rightarrow>
          (let det = law_details txt;
               st1 = st\<lparr>laws := AList.update (name d) det (laws st)\<rparr>;
               st2 = update_sets det st1
           in Inr (st2\<lparr>tot_cites := tot_cites st2 + length (get_citations_from_text txt),
                        tot_actions := tot_actions st2 + length (actions det),
                        tot_entities := tot_entities st2 + length (entities det)\<rparr>)))"

fun parse_loop ::
  "(ustring \<Rightarrow> error + ustring) \<Rightarrow> dir_entry list \<Rightarrow> corpus \<Rightarrow> error + corpus" where
  "parse_loop recode [] st = Inr st"
| "parse_loop recode (d # ds) st =
     (case parse_step recode d st of
        Inl e \<Rightarrow> Inl e
      | Inr st' \<Rightarrow> parse_loop recode ds st')"

definition empty_corpus :: corpus where
  "empty_corpus =
     \<lparr>laws = [], all_actions = {}, all_entities = {}, all_citations = {},
      tot_cites = 0, tot_actions = 0, tot_entities = 0\<rparr>"

definition parse_laws :: "(ustring \<Rightarrow> error + ustring) \<Rightarrow> dir_entry list \<Rightarrow> error + corpus" where
  "parse_laws recode ds = parse_loop recode ds empty_corpus"

section \<open>Output files\<close>

text \<open>
  A file is the list of the bytes written to it. \<open>str.encode('utf-8')\<close> raises on a
  surrogate code point; the characters of a \<open>str\<close> are below 0x110000.
\<close>

definition utf8_ok :: "uchar \<Rightarrow> bool" where
  "utf8_ok c \<longleftrightarrow> \<not> (0xD800 \<le> c \<and> c < 0xE000)"

definition utf8_char :: "uchar \<Rightarrow> byte list" where
  "utf8_char c =
     (if c < 0x80 then [c]
      else if c < 0x800 then [0xC0 + c div 64, 0x80 + c mod 64]
      else if c < 0x10000 then [0xE0 + c div 4096, 0x80 + c div 64 mod 64, 0x80 + c mod 64]
      else [0xF0 + c div 262144, 0x80 + c div 4096 mod 64, 0x80 + c div 64 mod 64,
            0x80 + c mod 64])"

definition utf8_bytes :: "ustring \<Rightarrow> byte list" where
  "utf8_bytes s = concat (map utf8_char s)"

definition encode_utf8 :: "ustring \<Rightarrow> error + byte list" where
  "encode_utf8 s = (if list_all utf8_ok s then Inr (utf8_bytes s) else Inl UnicodeEncodeError)"

fun write_list_out :: "byte list \<Rightarrow> ustring list \<Rightarrow> error + byte list" where
  "write_list_out fout [] = Inr fout"
| "write_list_out fout (e # enum) =
     (case encode_utf8 (clean_list_item e @ [13, 10]) of
        Inl err \<Rightarrow> Inl err
      | Inr b \<Rightarrow> write_list_out (fout @ b) enum)"

text \<open>
  Iterating over a Python \<open>set\<close> visits each element once, in an order the language does not
  fix. The order is the parameter \<open>it\<close> of the functions that iterate over a set.
\<close>

definition set_iteration :: "(ustring set \<Rightarrow> ustring list) \<Rightarrow> bool" where
  "set_iteration it \<longleftrightarrow> (\<forall>S. finite S \<longrightarrow> distinct (it S) \<and> set (it S) = S)"

text \<open>
  The writers append to (\<open>'ab'\<close>) or create (\<open>'wb'\<close>) a file; the appending ones take
  what the file holds and return what it holds afterwards. The three section headers of the
  report are constants free of surrogates, written as their bytes. The file names and the
  opening of the files are left out.
\<close>

definition write_to_fout_txt :: "details \<Rightarrow> error + byte list" where
  "write_to_fout_txt det =
     (case write_list_out (utf8_bytes [0x5E6, 0x5D9, 0x5D8, 0x5D5, 0x5D8, 0x5D9, 0x5DD, 13, 10])
             (citations det) of
        Inl err \<Rightarrow> Inl err
      | Inr f1 \<Rightarrow>
     (case write_list_out
             (f1 @ utf8_bytes [13, 10, 13, 10] @
              utf8_bytes [0x5E4, 0x5E2, 0x5D5, 0x5DC, 0x5D5, 0x5EA, 13, 10])
             (actions det) of
        Inl err \<Rightarrow> Inl err
      | Inr f2 \<Rightarrow>
          write_list_out
             (f2 @ utf8_bytes [13, 10, 13, 10] @ utf8_bytes [0x5D2, 0x5D5, 0x5E4, 0x5D9, 0x5DD, 13, 10])
             (entities det)))"



definition write_to_fout_entities_laws ::
  "(ustring set \<Rightarrow> ustring list) \<Rightarrow> byte list \<Rightarrow> ustring \<Rightarrow> details \<Rightarrow> error + byte list" where
  "write_to_fout_entities_laws it fout law_name det =
     write_list_out fout (map (\<lambda>entity. entity @ [9] @ law_name) (it (set (entities det))))"

definition write_to_fout_entities_citations ::
  "(ustring set \<Rightarrow> ustring list) \<Rightarrow> byte list \<Rightarrow> details \<Rightarrow> error + byte list" where
  "write_to_fout_entities_citations it fout det =
     write_list_out fout
       (concat (map (\<lambda>entity. map (\<lambda>citation. entity @ [9] @ citation) (it (set (citations det))))
          (it (set (entities det)))))"

definition write_to_fout_laws_citations ::
  "(ustring set \<Rightarrow> ustring list) \<Rightarrow> byte list \<Rightarrow> ustring \<Rightarrow> details \<Rightarrow> error + byte list" where
  "write_to_fout_laws_citations it fout law_name det =
     write_list_out fout (map (\<lambda>citation. law_name @ [9] @ citation) (it (set (citations det))))"

text \<open>\<open>str\<close> of a non-negative integer, as the f-strings format the coordinates.\<close>

fun str_nat :: "nat \<Rightarrow> ustring" where
  "str_nat n = (if n < 10 then [48 + n] else str_nat (n div 10) @ [48 + n mod 10])"

declare str_nat.simps [simp del]

definition HEADER :: ustring where
  "HEADER = [0x49, 0x64, 9, 0x78, 0x5F, 0x63, 0x6F, 0x6F, 0x72, 0x64, 9,
             0x79, 0x5F, 0x63, 0x6F, 0x6F, 0x72, 0x64]"

definition iter_to_list_of_strings :: "ustring list \<Rightarrow> nat \<Rightarrow> ustring list" where
  "iter_to_list_of_strings iterable x_coord =
     HEADER # map (\<lambda>(idx, item). item @ [9] @ str_nat x_coord @ [9] @ str_nat (idx + 1))
                (enumerate 0 iterable)"

definition write_all_actions :: "(ustring set \<Rightarrow> ustring list) \<Rightarrow> ustring set \<Rightarrow> error + byte list" where
  "write_all_actions it acts =
     (let clean_list = map clean_list_item (it acts)
      in write_list_out [] (iter_to_list_of_strings (it (set clean_list)) ACTIONS_X))"

definition write_all_entities :: "(ustring set \<Rightarrow> ustring list) \<Rightarrow> ustring set \<Rightarrow> error + byte list" where
  "write_all_entities it ents =
     (let clean_list = map clean_list_item (it ents)
      in write_list_out [] (iter_to_list_of_strings (it (set clean_list)) ENTITIES_X))"

definition write_all_citations :: "(ustring set \<Rightarrow> ustring list) \<Rightarrow> ustring set \<Rightarrow> error + byte list" where
  "write_all_citations it cits =
     (let clean_list = map clean_list_item (it cits)
      in write_list_out [] (iter_to_list_of_strings (it (set clean_list)) CITATIONS_X))"

text \<open>\<open>write_all_laws\<close> receives the keys of the dictionary of laws, in insertion order.\<close>

definition write_all_laws :: "(ustring set \<Rightarrow> ustring list) \<Rightarrow> ustring list \<Rightarrow> error + byte list" where
  "write_all_laws it law_names =
     (let clean_list = map clean_list_item law_names
      in write_list_out [] (iter_to_list_of_strings (it (set clean_list)) LAWS_X))"

section \<open>Auxiliary definitions\<close>

text \<open>
  A directory entry is readable when the loop passes over it or extracts its text; the
  records of a directory are the details of the laws the loop extracts, in order.
\<close>

definition readable :: "(ustring \<Rightarrow> error + ustring) \<Rightarrow> dir_entry \<Rightarrow> bool" where
  "readable recode d \<longleftrightarrow> skipped d \<or> (\<exists>txt. read_law recode d = Inr txt)"

fun records :: "(ustring \<Rightarrow> error + ustring) \<Rightarrow> dir_entry list \<Rightarrow> details list" where
  "records recode [] = []"
| "records recode (d # ds) =
     (if skipped d then records recode ds
      else case read_law recode d of
        Inl e \<Rightarrow> records recode ds
      | Inr txt \<Rightarrow> law_details txt # records recode ds)"

text \<open>Two small laws: one holds the action "qava" before a period, the other the entity "qablan".\<close>

definition law_a :: dir_entry where
  "law_a = \<lparr>name = [0x61, 0x2E, 0x68, 0x74, 0x6D], is_file = True,
            body_text = Inr [0x5E7, 0x5D1, 0x5E2, 0x2E]\<rparr>"

definition law_b :: dir_entry where
  "law_b = \<lparr>name = [0x62, 0x2E, 0x68, 0x74, 0x6D], is_file = True,
            body_text = Inr [0x5E7, 0x5D1, 0x5DC, 0x5DF, 0x20]\<rparr>"

definition law_broken :: dir_entry where
  "law_broken = \<lparr>name = [0x63, 0x2E, 0x68, 0x74, 0x6D], is_file = True,
            body_text = Inl AttributeError\<rparr>"

text \<open>The least number of characters a pattern consumes.\<close>

fun min_len :: "pattern \<Rightarrow> nat" where
  "min_len [] = 0"
| "min_len (Eos # p) = min_len p"
| "min_len (Rep a lo hi lazy # p) = lo + min_len p"

text \<open>
  The normaliser in the words of the specification: strip, from the end only, the characters
  of the terminator class; \<open>normalize\<close> is the replacement of the incidental characters
  followed by the stripping. \<open>collapse_newlines\<close> replaces each maximal run of newlines by
  one space.
\<close>

definition is_trailing :: "uchar \<Rightarrow> bool" where
  "is_trailing c = atom_ok (Class TRAILING) c"

definition strip_trailing :: "ustring \<Rightarrow> ustring" where
  "strip_trailing s = rev (dropWhile is_trailing (rev s))"

definition normalize :: "ustring \<Rightarrow> ustring" where
  "normalize x = remove_trailing_chars (remove_weird_unicode x)"

function collapse_newlines :: "ustring \<Rightarrow> ustring" where
  "collapse_newlines [] = []"
| "collapse_newlines (c # cs) =
     (if c = 10 then 0x20 # collapse_newlines (dropWhile (\<lambda>x. x = 10) cs)
      else c # collapse_newlines cs)"
  by pat_completeness auto
termination
  by (relation "measure length") (auto simp: less_Suc_eq_le length_dropWhile_le)

text \<open>The class that ends an action keyword or a construct-state entity.\<close>

definition word_end :: "uchar \<Rightarrow> bool" where
  "word_end c = atom_ok (Class WORD_END) c"

text \<open>The class \<open>[0-9]\<close> that ends every citation pattern.\<close>

definition digit :: "uchar \<Rightarrow> bool" where
  "digit c = atom_ok (Class [Rng 0x30 0x39]) c"




text \<open>
  A listing table in the words of the specification: the header row, then one row per item
  holding the item, a tab, the X coordinate, a tab and the next Y coordinate; and the file
  that the four \<open>write_all\<close> functions make of a set of items.
\<close>

fun rows_from :: "nat \<Rightarrow> nat \<Rightarrow> ustring list \<Rightarrow> ustring list" where
  "rows_from x y [] = []"
| "rows_from x y (item # items) =
     (item @ [9] @ str_nat x @ [9] @ str_nat y) # rows_from x (Suc y) items"

definition listing :: "(ustring set \<Rightarrow> ustring list) \<Rightarrow> ustring set \<Rightarrow> nat \<Rightarrow> error + byte list" where
  "listing it items x =
     write_list_out [] (iter_to_list_of_strings (it (clean_list_item ` items)) x)"

section \<open>Evaluation and counting lemmas\<close>

lemma count_list_filter:
  "count_list (filter P xs) c = (if P c then count_list xs c else 0)"
  by (induction xs) auto

lemma count_list_sort: "count_list (sort xs) c = count_list xs c"
proof -
  have "count (mset (sort xs)) c = count (mset xs) c" by simp
  then show ?thesis by (simp only: count_mset)
qed

lemmas eval_scan = findall_def sub_def scan.simps lit_def WORD_END_def is_space_def
  apply_filter_on_text_def

lemma get_citations_example:
  "get_citations_from_text
     [0x5D7, 0x5D5, 0x5E7, 0x20, 0x58, 0x20, 0x5EA, 0x5E9, 0x5DC, 0x22, 0x5D2, 0x20,
      0x31, 0x39, 0x37, 0x30, 0x2E] =
   [[0x5D7, 0x5D5, 0x5E7, 0x20, 0x58, 0x20, 0x5EA, 0x5E9, 0x5DC, 0x22, 0x5D2, 0x20,
      0x31, 0x39, 0x37, 0x30]]"
  by (simp add: get_citations_from_text_def CITATION_RES_def citation_re_def eval_scan)

lemmas eval_details = law_details_def get_citations_from_text_def get_actions_from_text_def
  get_entities_from_test_def CITATION_RES_def citation_re_def ACTION_RES_def ACTION_KEYWORDS_def
  action_re_def ENTITIES_RES_def entity_with_word_def remove_trailing_chars_def TRAILING_def
  LONGEST_POSSIBLE_CITATION_LENGTH_def eval_scan

lemma law_details_a:
  "law_details [0x5E7, 0x5D1, 0x5E2, 0x2E] =
     \<lparr>citations = [], actions = [[0x5E7, 0x5D1, 0x5E2]], entities = []\<rparr>"
  by (simp add: eval_details)

lemma law_details_b:
  "law_details [0x5E7, 0x5D1, 0x5DC, 0x5DF, 0x20] =
     \<lparr>citations = [], actions = [], entities = [[0x5E7, 0x5D1, 0x5DC, 0x5DF]]\<rparr>"
  by (simp add: eval_details)

lemmas eval_parse = parse_laws_def parse_step_def skipped_def endswith_def read_law_def
  remove_weird_unicode_def UNICODE_CHARS_TO_IGNORE_def replace_char_def update_sets_def
  empty_corpus_def law_a_def law_b_def law_broken_def law_details_a law_details_b

lemma parse_ab: "\<exists>c. parse_laws Inr [law_a, law_b] = Inr c \<and> all_actions c = {[0x5E7, 0x5D1, 0x5E2]}
   \<and> all_entities c = {[0x5E7, 0x5D1, 0x5DC, 0x5DF]} \<and> all_citations c = {}"
  by (simp add: eval_parse Let_def)

section \<open>Properties of the matcher\<close>

lemma backtrack_suffix:
  "r \<in> set (backtrack p s) \<Longrightarrow> \<exists>m. s = m @ r"
proof (induction p s arbitrary: r rule: backtrack.induct)
  case (1 s)
  then show ?case by simp
next
  case (2 p s)
  then show ?case by (simp split: if_splits)
next
  case (3 a lo hi lazy p)
  then show ?case by (simp split: if_splits)
next
  case (4 a lo hi lazy p c cs)
  from "4.prems" consider
    (more) "atom_ok a c" "hi \<noteq> Some 0"
      "r \<in> set (backtrack (Rep a (lo - 1) (map_option (\<lambda>h. h - 1) hi) lazy # p) cs)"
    | (stop) "lo = 0" "r \<in> set (backtrack p (c # cs))"
    by (auto simp: Let_def split: if_splits)
  then show ?case
  proof cases
    case more
    then obtain m where "cs = m @ r" using "4.IH"(1) by blast
    then have "c # cs = (c # m) @ r" by simp
    then show ?thesis by blast
  next
    case stop
    then show ?thesis using "4.IH"(2) by blast
  qed
qed

lemma backtrack_min_len:
  "r \<in> set (backtrack p s) \<Longrightarrow> length r + min_len p \<le> length s"
proof (induction p s arbitrary: r rule: backtrack.induct)
  case (1 s)
  then show ?case by simp
next
  case (2 p s)
  then show ?case by (simp split: if_splits)
next
  case (3 a lo hi lazy p)
  then show ?case by (cases "lo = 0") auto
next
  case (4 a lo hi lazy p c cs)
  from "4.prems" consider
    (more) "atom_ok a c" "hi \<noteq> Some 0"
      "r \<in> set (backtrack (Rep a (lo - 1) (map_option (\<lambda>h. h - 1) hi) lazy # p) cs)"
    | (stop) "lo = 0" "r \<in> set (backtrack p (c # cs))"
    by (auto simp: Let_def split: if_splits)
  then show ?case
  proof cases
    case more
    then have "length r + min_len (Rep a (lo - 1) (map_option (\<lambda>h. h - 1) hi) lazy # p) \<le> length cs"
      using "4.IH"(1) by blast
    then show ?thesis by simp
  next
    case stop
    then show ?thesis using "4.IH"(2) by fastforce
  qed
qed

lemma backtrack_append:
  "backtrack (p @ q) s = concat (map (backtrack q) (backtrack p s))"
proof (induction p s rule: backtrack.induct)
  case (4 a lo hi lazy p c cs)
  then show ?case by (cases "atom_ok a c \<and> hi \<noteq> Some 0"; cases "lo = 0") (auto simp: Let_def)
qed simp_all

lemma backtrack_done: "backtrack (Rep a 0 (Some 0) lazy # q) s = backtrack q s"
  by (cases s) (simp_all add: Let_def)

lemma backtrack_one:
  "backtrack (Rep a (Suc 0) (Some (Suc 0)) False # q) s =
     (case s of [] \<Rightarrow> [] | c # cs \<Rightarrow> if atom_ok a c then backtrack q cs else [])"
  by (cases s) (simp_all add: backtrack_done Let_def)

lemma backtrack_lit:
  "backtrack (lit k @ q) s = (if take (length k) s = k then backtrack q (drop (length k) s) else [])"
proof (induction k arbitrary: s)
  case Nil
  then show ?case by (simp add: lit_def)
next
  case (Cons a k)
  have "lit (a # k) @ q = one (Sym a) # (lit k @ q)" by (simp add: lit_def)
  then show ?case using Cons by (cases s) (simp_all add: backtrack_one del: backtrack.simps)
qed

lemma scan_consuming:
  assumes "0 < min_len p"
  shows "scan p adv s =
     (case backtrack p s of
        [] \<Rightarrow> (case s of [] \<Rightarrow> [] | c # cs \<Rightarrow> Gap c # scan p False cs)
      | r # _ \<Rightarrow> Hit (take (length s - length r) s) # scan p False r)"
proof -
  have "\<forall>r\<in>set (backtrack p s). length r < length s"
    using backtrack_min_len [of _ p s] assms by fastforce
  then have f: "filter (\<lambda>r. adv \<longrightarrow> length r < length s) (backtrack p s) = backtrack p s"
    and h: "backtrack p s = r # rs \<Longrightarrow> length r < length s" for r rs
    by (auto simp: filter_id_conv)
  show ?thesis
    by (subst scan.simps) (auto simp: f h split: list.splits)
qed

section \<open>The citation length filter\<close>

text \<open>
  C4. A citation that the patterns extract from a law is in the law's citation collection
  exactly when it is shorter than 200 characters, and then as often as it was extracted;
  one of 200 characters or more is not in the collection.
\<close>

theorem citation_length_filter:
  "count_list (citations (law_details txt)) c =
     (if length c < 200 then count_list (get_citations_from_text txt) c else 0) \<and>
   (c \<in> set (citations (law_details txt)) \<longleftrightarrow>
      c \<in> set (get_citations_from_text txt) \<and> \<not> 200 \<le> length c)"
  by (auto simp: law_details_def LONGEST_POSSIBLE_CITATION_LENGTH_def count_list_filter
      count_list_sort Let_def)

theorem citation_length_filter_witness:
  "count_list (citations (law_details
     [0x5D7, 0x5D5, 0x5E7, 0x20, 0x58, 0x20, 0x5EA, 0x5E9, 0x5DC, 0x22, 0x5D2, 0x20,
      0x31, 0x39, 0x37, 0x30, 0x2E]))
     [0x5D7, 0x5D5, 0x5E7, 0x20, 0x58, 0x20, 0x5EA, 0x5E9, 0x5DC, 0x22, 0x5D2, 0x20,
      0x31, 0x39, 0x37, 0x30] = 1"
  using citation_length_filter [of
     "[0x5D7, 0x5D5, 0x5E7, 0x20, 0x58, 0x20, 0x5EA, 0x5E9, 0x5DC, 0x22, 0x5D2, 0x20,
      0x31, 0x39, 0x37, 0x30, 0x2E]"
     "[0x5D7, 0x5D5, 0x5E7, 0x20, 0x58, 0x20, 0x5EA, 0x5E9, 0x5DC, 0x22, 0x5D2, 0x20,
      0x31, 0x39, 0x37, 0x30]"]
  by (simp add: get_citations_example)

section \<open>The corpus fold\<close>

lemma fold_update_sets:
  "all_actions (fold update_sets rs c) = all_actions c \<union> (\<Union>r\<in>set rs. set (actions r))"
  "all_entities (fold update_sets rs c) = all_entities c \<union> (\<Union>r\<in>set rs. set (entities r))"
  "all_citations (fold update_sets rs c) = all_citations c \<union> (\<Union>r\<in>set rs. set (citations r))"
  by (induction rs arbitrary: c) (auto simp: update_sets_def)

lemma parse_step_sets:
  "parse_step recode d st = Inr st' \<Longrightarrow>
     readable recode d \<and>
     all_actions st' = all_actions (fold update_sets (records recode [d]) st) \<and>
     all_entities st' = all_entities (fold update_sets (records recode [d]) st) \<and>
     all_citations st' = all_citations (fold update_sets (records recode [d]) st)"
  by (auto simp: parse_step_def update_sets_def readable_def Let_def split: if_splits sum.splits)

lemma records_Cons: "records recode (d # ds) = records recode [d] @ records recode ds"
  by (simp split: sum.splits)

lemma parse_loop_sets:
  "parse_loop recode ds st = Inr c \<Longrightarrow>
     (\<forall>d\<in>set ds. readable recode d) \<and>
     all_actions c = all_actions (fold update_sets (records recode ds) st) \<and>
     all_entities c = all_entities (fold update_sets (records recode ds) st) \<and>
     all_citations c = all_citations (fold update_sets (records recode ds) st)"
proof (induction ds arbitrary: st)
  case Nil
  then show ?case by simp
next
  case (Cons d ds)
  then obtain st' where st': "parse_step recode d st = Inr st'"
    and rest: "parse_loop recode ds st' = Inr c"
    by (auto split: sum.splits)
  note a = parse_step_sets [OF st'] and b = Cons.IH [OF rest]
  have "records recode (d # ds) = records recode [d] @ records recode ds"
    by (rule records_Cons)
  with a b show ?case
    by (simp only: fold_update_sets fold_append o_apply set_ConsD set_simps ball_simps
        Un_assoc set_append image_Un Union_Un_distrib) simp
qed

lemma parse_step_readable:
  "readable recode d \<Longrightarrow> \<exists>st'. parse_step recode d st = Inr st'"
  by (auto simp: parse_step_def readable_def Let_def)

lemma parse_loop_readable:
  "\<forall>d\<in>set ds. readable recode d \<Longrightarrow> \<exists>c. parse_loop recode ds st = Inr c"
proof (induction ds arbitrary: st)
  case Nil
  then show ?case by simp
next
  case (Cons d ds)
  then obtain st' where "parse_step recode d st = Inr st'"
    using parse_step_readable [of recode d st] by auto
  with Cons show ?case by simp
qed

lemma set_records:
  "set (records recode ds) =
     {law_details txt | d txt. d \<in> set ds \<and> \<not> skipped d \<and> read_law recode d = Inr txt}"
  by (induction ds) (auto split: sum.splits)

text \<open>
  C7. Folding the details of the laws into the corpus-wide sets in any order gives the same
  sets of actions, entities and citations; in particular \<open>parse_laws\<close> returns the same
  three sets whatever the order of the directory entries.
\<close>

theorem corpus_fold_order_independent:
  assumes "mset rs = mset rs'" and "mset ds = mset ds'"
  shows "all_actions (fold update_sets rs c) = all_actions (fold update_sets rs' c) \<and>
         all_entities (fold update_sets rs c) = all_entities (fold update_sets rs' c) \<and>
         all_citations (fold update_sets rs c) = all_citations (fold update_sets rs' c) \<and>
         (\<forall>c1. parse_laws recode ds = Inr c1 \<longrightarrow>
            (\<exists>c2. parse_laws recode ds' = Inr c2 \<and> all_actions c2 = all_actions c1 \<and>
                  all_entities c2 = all_entities c1 \<and> all_citations c2 = all_citations c1))"
proof -
  from assms have s: "set rs = set rs'" and d: "set ds = set ds'"
    by (auto dest: mset_eq_setD)
  have one: "all_actions (fold update_sets rs c) = all_actions (fold update_sets rs' c) \<and>
         all_entities (fold update_sets rs c) = all_entities (fold update_sets rs' c) \<and>
         all_citations (fold update_sets rs c) = all_citations (fold update_sets rs' c)"
    by (simp add: fold_update_sets s)
  have two: "\<exists>c2. parse_laws recode ds' = Inr c2 \<and> all_actions c2 = all_actions c1 \<and>
                  all_entities c2 = all_entities c1 \<and> all_citations c2 = all_citations c1"
    if "parse_laws recode ds = Inr c1" for c1
  proof -
    from that have l: "parse_loop recode ds empty_corpus = Inr c1"
      by (simp add: parse_laws_def)
    note a = parse_loop_sets [OF l]
    then have "\<forall>d\<in>set ds'. readable recode d" using d by simp
    then obtain c2 where c2: "parse_loop recode ds' empty_corpus = Inr c2"
      using parse_loop_readable by blast
    note b = parse_loop_sets [OF c2]
    have "set (records recode ds) = set (records recode ds')"
      by (simp add: set_records d)
    with a b have "all_actions c2 = all_actions c1 \<and>
                  all_entities c2 = all_entities c1 \<and> all_citations c2 = all_citations c1"
      by (simp add: fold_update_sets)
    with c2 show ?thesis by (simp add: parse_laws_def)
  qed
  from one two show ?thesis by blast
qed

theorem corpus_fold_order_independent_witness:
  "\<exists>c1 c2. parse_laws Inr [law_a, law_b] = Inr c1 \<and> parse_laws Inr [law_b, law_a] = Inr c2 \<and>
     all_actions c1 = {[0x5E7, 0x5D1, 0x5E2]} \<and> all_actions c2 = all_actions c1 \<and>
     all_entities c2 = all_entities c1 \<and> all_citations c2 = all_citations c1"
proof -
  have m: "mset [law_a, law_b] = mset [law_b, law_a]" by simp
  from parse_ab obtain c1 where c1: "parse_laws Inr [law_a, law_b] = Inr c1"
    and a: "all_actions c1 = {[0x5E7, 0x5D1, 0x5E2]}" by blast
  from corpus_fold_order_independent [OF refl m, of "[]" empty_corpus Inr] c1 a
  show ?thesis by blast
qed

section \<open>A failing document\<close>

text \<open>
  C3, as stated, fails: the loop of \<open>parse_laws\<close> has no handler, so the failure of one
  document is the failure of the whole run. Here the second of three laws has no body.
\<close>

theorem failure_aborts_counterexample:
  "parse_laws Inr [law_a, law_broken, law_b] = Inl AttributeError"
  by (simp add: eval_parse Let_def)

text \<open>
  C3, amended. When every entry before \<open>d\<close> is passed over or extracted and extracting
  \<open>d\<close> raises \<open>e\<close>, \<open>parse_laws\<close> raises \<open>e\<close>: no entry after \<open>d\<close> is processed and
  neither records nor totals are returned. It returns them when no entry fails.
\<close>

theorem failure_aborts_corpus_run:
  assumes "\<forall>x\<in>set pre. readable recode x"
  shows "(\<exists>c. parse_laws recode pre = Inr c) \<and>
         (\<not> skipped d \<and> read_law recode d = Inl e \<longrightarrow>
            parse_laws recode (pre @ d # post) = Inl e)"
proof -
  have ok: "\<exists>c. parse_loop recode pre st = Inr c" for st
    using assms by (rule parse_loop_readable)
  have app: "parse_loop recode (xs @ ys) st =
      (case parse_loop recode xs st of Inl e \<Rightarrow> Inl e | Inr st' \<Rightarrow> parse_loop recode ys st')"
    for xs ys st
    by (induction xs arbitrary: st) (auto split: sum.splits)
  have "parse_loop recode (pre @ d # post) st = Inl e"
    if "\<not> skipped d" "read_law recode d = Inl e" for st
  proof -
    from ok obtain c where "parse_loop recode pre st = Inr c" by blast
    moreover from that have "parse_step recode d c = Inl e"
      by (simp add: parse_step_def)
    ultimately show ?thesis by (simp add: app)
  qed
  with ok show ?thesis by (simp add: parse_laws_def)
qed

theorem failure_aborts_corpus_run_witness:
  "(\<exists>c. parse_laws Inr [law_a] = Inr c) \<and>
   parse_laws Inr ([law_a] @ law_broken # [law_b]) = Inl AttributeError"
proof -
  have r: "\<forall>x\<in>set [law_a]. readable Inr x"
    by (simp add: readable_def eval_parse)
  have b: "\<not> skipped law_broken \<and> read_law Inr law_broken = Inl AttributeError"
    by (simp add: eval_parse)
  from failure_aborts_corpus_run [OF r, of law_broken AttributeError "[law_b]"] b
  show ?thesis by blast
qed

section \<open>The normaliser\<close>

lemma is_trailing_newline: "is_trailing 10"
  by (simp add: is_trailing_def TRAILING_def is_space_def)

lemma trailing_star_fail:
  "\<not> list_all is_trailing s \<Longrightarrow>
     backtrack [Rep (Class TRAILING) 0 None False, Eos] s = []"
proof (induction s)
  case Nil
  then show ?case by simp
next
  case (Cons c cs)
  show ?case
  proof (cases "is_trailing c")
    case True
    with Cons.prems have n: "\<not> list_all is_trailing cs" by simp
    then have "cs \<noteq> []" by auto
    with Cons.IH [OF n] True show ?thesis
      by (simp add: Let_def is_trailing_def)
  next
    case False
    then have "c \<noteq> 10" using is_trailing_newline by auto
    with False show ?thesis by (simp add: Let_def is_trailing_def)
  qed
qed

lemma trailing_star_ok:
  "list_all is_trailing s \<Longrightarrow>
     \<exists>rs. backtrack [Rep (Class TRAILING) 0 None False, Eos] s = [] # rs"
proof (induction s)
  case Nil
  then show ?case by simp
next
  case (Cons c cs)
  then obtain rs where "backtrack [Rep (Class TRAILING) 0 None False, Eos] cs = [] # rs"
    by auto
  with Cons.prems show ?case by (simp add: Let_def is_trailing_def)
qed

lemma trailing_plus:
  "backtrack [plus_g (Class TRAILING), Eos] s =
     (case s of [] \<Rightarrow> [] | c # cs \<Rightarrow>
        if is_trailing c then backtrack [Rep (Class TRAILING) 0 None False, Eos] cs else [])"
  by (cases s) (simp_all add: Let_def is_trailing_def)

lemma scan_trailing:
  "scan [plus_g (Class TRAILING), Eos] adv s =
     (if s \<noteq> [] \<and> list_all is_trailing s then [Hit s]
      else case s of [] \<Rightarrow> [] | c # cs \<Rightarrow> Gap c # scan [plus_g (Class TRAILING), Eos] False cs)"
proof -
  define P where "P = [plus_g (Class TRAILING), Eos]"
  have m: "0 < min_len P" by (simp add: P_def)
  have bt: "backtrack P s = (case s of [] \<Rightarrow> [] | c # cs \<Rightarrow>
        if is_trailing c then backtrack [Rep (Class TRAILING) 0 None False, Eos] cs else [])" for s
    unfolding P_def by (rule trailing_plus)
  have nil: "scan P b [] = []" for b
    by (simp add: scan_consuming [OF m] bt)
  have "scan P adv s =
     (if s \<noteq> [] \<and> list_all is_trailing s then [Hit s]
      else case s of [] \<Rightarrow> [] | c # cs \<Rightarrow> Gap c # scan P False cs)"
  proof (cases s)
    case Nil
    then show ?thesis by (simp add: nil)
  next
    case (Cons c cs)
    show ?thesis
    proof (cases "list_all is_trailing s")
      case True
      with Cons obtain rs where "backtrack [Rep (Class TRAILING) 0 None False, Eos] cs = [] # rs"
        using trailing_star_ok [of cs] by auto
      then show ?thesis using True Cons
        by (simp add: scan_consuming [OF m, of adv] bt nil del: backtrack.simps)
    next
      case False
      then have "is_trailing c \<Longrightarrow> backtrack [Rep (Class TRAILING) 0 None False, Eos] cs = []"
        using Cons trailing_star_fail [of cs] by simp
      with False Cons show ?thesis
        by (simp add: scan_consuming [OF m, of adv] bt del: backtrack.simps)
    qed
  qed
  then show ?thesis unfolding P_def .
qed

lemma strip_trailing_Cons:
  "strip_trailing (c # cs) = (if list_all is_trailing (c # cs) then [] else c # strip_trailing cs)"
  by (auto simp: strip_trailing_def dropWhile_append list_all_iff)

lemma remove_trailing_chars_eq: "remove_trailing_chars s = strip_trailing s"
proof -
  define P where "P = [plus_g (Class TRAILING), Eos]"
  have sc: "scan P adv s =
     (if s \<noteq> [] \<and> list_all is_trailing s then [Hit s]
      else case s of [] \<Rightarrow> [] | c # cs \<Rightarrow> Gap c # scan P False cs)" for adv s
    unfolding P_def by (rule scan_trailing)
  have "subst [] (scan P False s) = strip_trailing s"
  proof (induction s)
    case Nil
    then show ?case by (simp add: sc [of False "[]"] strip_trailing_def)
  next
    case (Cons c cs)
    then show ?case
      by (simp add: sc [of False "c # cs"] strip_trailing_Cons del: list.pred_inject)
  qed
  then show ?thesis by (simp add: remove_trailing_chars_def sub_def P_def)
qed

lemma strip_trailing_idem: "strip_trailing (strip_trailing s) = strip_trailing s"
  by (simp add: strip_trailing_def)

lemma replace_char_id: "old \<notin> set s \<Longrightarrow> replace_char old new s = s"
  by (induction s) (auto simp: replace_char_def)

lemma set_remove_weird_unicode:
  "set (remove_weird_unicode x) \<inter> set UNICODE_CHARS_TO_IGNORE = {}"
  by (auto simp: remove_weird_unicode_def UNICODE_CHARS_TO_IGNORE_def replace_char_def)

lemma remove_weird_unicode_id:
  "set s \<inter> set UNICODE_CHARS_TO_IGNORE = {} \<Longrightarrow> remove_weird_unicode s = s"
  by (simp add: remove_weird_unicode_def UNICODE_CHARS_TO_IGNORE_def replace_char_id)

lemma set_strip_trailing: "set (strip_trailing s) \<subseteq> set s"
  by (auto simp: strip_trailing_def dest: set_dropWhileD)

lemma remove_weird_unicode_eq:
  "remove_weird_unicode x = map (\<lambda>c. if c \<in> set UNICODE_CHARS_TO_IGNORE then 0x20 else c) x"
  by (simp add: remove_weird_unicode_def UNICODE_CHARS_TO_IGNORE_def replace_char_def)

lemma is_trailing_iff:
  "is_trailing c \<longleftrightarrow> c \<in> {0x2E, 0x2C, 0x3B, 0x22, 0x5B, 0x5D, 0x3A} \<or> is_space c"
  by (auto simp: is_trailing_def TRAILING_def)

text \<open>
  C5. The normaliser is idempotent, where normalising replaces each of the three incidental
  characters by a space and then removes the longest run of terminator characters
  (\<open>. , ; " [ ] :\<close> and white space) that ends the string.
\<close>

theorem normalize_idempotent:
  "normalize (normalize x) = normalize x \<and>
   normalize x =
     rev (dropWhile (\<lambda>c. c \<in> {0x2E, 0x2C, 0x3B, 0x22, 0x5B, 0x5D, 0x3A} \<or> is_space c)
       (rev (map (\<lambda>c. if c \<in> {0x2003, 0x3BC, 0xFC} then 0x20 else c) x)))"
proof -
  have "set (normalize x) \<inter> set UNICODE_CHARS_TO_IGNORE = {}"
    using set_remove_weird_unicode [of x] set_strip_trailing [of "remove_weird_unicode x"]
    by (auto simp: normalize_def remove_trailing_chars_eq)
  then have "remove_weird_unicode (normalize x) = normalize x"
    by (rule remove_weird_unicode_id)
  then have "normalize (normalize x) = normalize x"
    by (simp add: normalize_def remove_trailing_chars_eq strip_trailing_idem)
  moreover have "is_trailing = (\<lambda>c. c \<in> {0x2E, 0x2C, 0x3B, 0x22, 0x5B, 0x5D, 0x3A} \<or> is_space c)"
    by (rule ext) (rule is_trailing_iff)
  then have "normalize x =
     rev (dropWhile (\<lambda>c. c \<in> {0x2E, 0x2C, 0x3B, 0x22, 0x5B, 0x5D, 0x3A} \<or> is_space c)
       (rev (map (\<lambda>c. if c \<in> {0x2003, 0x3BC, 0xFC} then 0x20 else c) x)))"
    by (simp add: normalize_def remove_trailing_chars_eq strip_trailing_def
        remove_weird_unicode_eq UNICODE_CHARS_TO_IGNORE_def)
  ultimately show ?thesis by blast
qed

lemma normalize_example:
  "normalize [0x5E7, 0x5D1, 0x5DC, 0x5DF, 0x2E, 0x20, 0x2C] = [0x5E7, 0x5D1, 0x5DC, 0x5DF]"
  by (simp add: normalize_def remove_weird_unicode_def UNICODE_CHARS_TO_IGNORE_def
      replace_char_def remove_trailing_chars_def TRAILING_def eval_scan)

theorem normalize_idempotent_witness:
  "normalize (normalize [0x5E7, 0x5D1, 0x5DC, 0x5DF, 0x2E, 0x20, 0x2C]) = [0x5E7, 0x5D1, 0x5DC, 0x5DF]"
  using normalize_idempotent [of "[0x5E7, 0x5D1, 0x5DC, 0x5DF, 0x2E, 0x20, 0x2C]", THEN conjunct1]
  by (simp only: normalize_example)

section \<open>Written lines\<close>

lemma newline_star:
  "\<exists>rs. backtrack [Rep (Sym 10) 0 None False] s = dropWhile (\<lambda>x. x = 10) s # rs"
proof (induction s)
  case Nil
  then show ?case by simp
next
  case (Cons c cs)
  then show ?case by (auto simp: Let_def)
qed

lemma newline_plus:
  "backtrack [plus_g (Sym 10)] s =
     (case s of [] \<Rightarrow> [] | c # cs \<Rightarrow>
        if c = 10 then backtrack [Rep (Sym 10) 0 None False] cs else [])"
  by (cases s) (simp_all add: Let_def)

lemma scan_newlines:
  "scan [plus_g (Sym 10)] adv s =
     (case s of [] \<Rightarrow> []
      | c # cs \<Rightarrow>
          if c = 10
          then Hit (c # takeWhile (\<lambda>x. x = 10) cs) #
               scan [plus_g (Sym 10)] False (dropWhile (\<lambda>x. x = 10) cs)
          else Gap c # scan [plus_g (Sym 10)] False cs)"
proof -
  define R where "R = [plus_g (Sym 10)]"
  have m: "0 < min_len R" by (simp add: R_def)
  have bt: "backtrack R s = (case s of [] \<Rightarrow> [] | c # cs \<Rightarrow>
        if c = 10 then backtrack [Rep (Sym 10) 0 None False] cs else [])" for s
    unfolding R_def by (rule newline_plus)
  have tk: "take (Suc (length cs) - length (dropWhile (\<lambda>x. x = 10) cs)) (c # cs) =
      c # takeWhile (\<lambda>x. x = 10) cs" for c :: uchar and cs :: ustring
  proof -
    have "length cs = length (takeWhile (\<lambda>x. x = 10) cs) + length (dropWhile (\<lambda>x. x = 10) cs)"
      by (metis length_append takeWhile_dropWhile_id)
    then have "Suc (length cs) - length (dropWhile (\<lambda>x. x = 10) cs) =
        Suc (length (takeWhile (\<lambda>x. x = 10) cs))" by simp
    moreover have "take (length (takeWhile (\<lambda>x. x = 10) cs)) cs = takeWhile (\<lambda>x. x = 10) cs"
      by (metis append_eq_conv_conj takeWhile_dropWhile_id)
    ultimately show ?thesis by simp
  qed
  have "scan R adv s =
     (case s of [] \<Rightarrow> []
      | c # cs \<Rightarrow>
          if c = 10
          then Hit (c # takeWhile (\<lambda>x. x = 10) cs) # scan R False (dropWhile (\<lambda>x. x = 10) cs)
          else Gap c # scan R False cs)"
  proof (cases s)
    case Nil
    then show ?thesis by (simp add: scan_consuming [OF m] bt)
  next
    case (Cons c cs)
    obtain rs where "backtrack [Rep (Sym 10) 0 None False] cs = dropWhile (\<lambda>x. x = 10) cs # rs"
      using newline_star by blast
    then show ?thesis using Cons
      by (simp add: scan_consuming [OF m, of adv] bt tk del: backtrack.simps)
  qed
  then show ?thesis unfolding R_def .
qed

lemma clean_list_item_eq: "clean_list_item s = collapse_newlines s"
proof -
  define R where "R = [plus_g (Sym 10)]"
  have sc: "scan R adv s =
     (case s of [] \<Rightarrow> []
      | c # cs \<Rightarrow>
          if c = 10
          then Hit (c # takeWhile (\<lambda>x. x = 10) cs) # scan R False (dropWhile (\<lambda>x. x = 10) cs)
          else Gap c # scan R False cs)" for adv s
    unfolding R_def by (rule scan_newlines)
  have "subst [0x20] (scan R False s) = collapse_newlines s"
  proof (induction s rule: collapse_newlines.induct)
    case 1
    then show ?case by (simp add: sc [of False "[]"])
  next
    case (2 c cs)
    then show ?case by (simp add: sc [of False "c # cs"])
  qed
  then show ?thesis by (simp add: clean_list_item_def sub_def R_def)
qed

lemma collapse_newlines_no_newline: "10 \<notin> set (collapse_newlines s)"
  by (induction s rule: collapse_newlines.induct) auto

lemma utf8_char_newline: "10 \<in> set (utf8_char c) \<longleftrightarrow> c = 10"
  by (auto simp: utf8_char_def)

lemma utf8_bytes_newline: "10 \<in> set (utf8_bytes s) \<longleftrightarrow> 10 \<in> set s"
  by (auto simp: utf8_bytes_def utf8_char_newline)

lemma utf8_bytes_append: "utf8_bytes (xs @ ys) = utf8_bytes xs @ utf8_bytes ys"
  by (simp add: utf8_bytes_def)

lemma write_list_out_eq:
  "write_list_out fout enum =
     (if \<forall>e\<in>set enum. list_all utf8_ok (clean_list_item e)
      then Inr (fout @ concat (map (\<lambda>e. utf8_bytes (clean_list_item e) @ [13, 10]) enum))
      else Inl UnicodeEncodeError)"
proof (induction enum arbitrary: fout)
  case Nil
  then show ?case by simp
next
  case (Cons e enum)
  have "utf8_bytes [13, 10] = [13, 10]" by (simp add: utf8_bytes_def utf8_char_def)
  moreover have "utf8_ok 13" "utf8_ok 10" by (simp_all add: utf8_ok_def)
  ultimately show ?case
    by (simp add: Cons.IH encode_utf8_def utf8_bytes_append)
qed

text \<open>
  C9. \<open>write_list_out\<close>, through which every writer of a table, a listing or a report
  passes its lines, writes each line after \<open>clean_list_item\<close> has replaced every maximal
  run of newlines by one space, followed by CR LF: neither the cleaned line nor its UTF-8
  bytes hold a newline. (It raises only on a surrogate code point.)
\<close>

theorem written_lines_have_no_newline:
  "clean_list_item e = collapse_newlines e \<and>
   10 \<notin> set (clean_list_item e) \<and>
   10 \<notin> set (utf8_bytes (clean_list_item e)) \<and>
   write_list_out fout enum =
     (if \<forall>e\<in>set enum. list_all utf8_ok (clean_list_item e)
      then Inr (fout @ concat (map (\<lambda>e. utf8_bytes (clean_list_item e) @ [13, 10]) enum))
      else Inl UnicodeEncodeError)"
  by (simp add: write_list_out_eq utf8_bytes_newline clean_list_item_eq
      collapse_newlines_no_newline)

lemma clean_example: "clean_list_item [65, 10, 10, 66, 10] = [65, 0x20, 66, 0x20]"
  by (simp add: clean_list_item_def eval_scan)

theorem written_lines_have_no_newline_witness:
  "collapse_newlines [65, 10, 10, 66, 10] = [65, 0x20, 66, 0x20] \<and>
   write_list_out [] [[65, 10, 10, 66, 10]] = Inr [65, 0x20, 66, 0x20, 13, 10]"
  using written_lines_have_no_newline [of "[65, 10, 10, 66, 10]" "[]" "[[65, 10, 10, 66, 10]]"]
  by (simp add: clean_example utf8_ok_def utf8_bytes_def utf8_char_def)

section \<open>Action patterns\<close>

lemma word_end_iff:
  "word_end c \<longleftrightarrow> c = 0x20 \<or> c = 0x2E \<or> c = 0x2C \<or> c = 0x3B \<or> is_space c"
  by (auto simp: word_end_def WORD_END_def)

lemma min_len_lit: "min_len (lit k @ q) = length k + min_len q"
  by (induction k) (simp_all add: lit_def)

lemma backtrack_action:
  "backtrack (action_re kw) s =
     (if take (length kw) s = kw \<and> length kw < length s \<and> word_end (s ! length kw)
      then [drop (Suc (length kw)) s] else [])"
proof (cases "drop (length kw) s")
  case Nil
  then show ?thesis
    by (simp add: action_re_def backtrack_lit backtrack_one del: backtrack.simps(2-4))
next
  case (Cons c cs)
  then have l: "length kw < length s" by (cases "length kw < length s") auto
  from Cons_nth_drop_Suc [OF l] Cons
  have "s ! length kw = c" "drop (Suc (length kw)) s = cs" by auto
  with Cons l show ?thesis
    by (simp add: action_re_def backtrack_lit backtrack_one word_end_def del: backtrack.simps(2-4))
qed

lemma scan_action:
  "scan (action_re kw) adv s =
     (case s of [] \<Rightarrow> []
      | x # xs \<Rightarrow>
          if take (length kw) s = kw \<and> length kw < length s \<and> word_end (s ! length kw)
          then Hit (take (Suc (length kw)) s) # scan (action_re kw) False (drop (Suc (length kw)) s)
          else Gap x # scan (action_re kw) False xs)"
proof -
  have m: "0 < min_len (action_re kw)"
    by (simp add: action_re_def min_len_lit)
  show ?thesis
    by (cases s) (auto simp: scan_consuming [OF m, of adv] backtrack_action Suc_diff_le
        simp del: backtrack.simps(2-4))
qed

lemma scan_action_nil: "scan (action_re kw) adv [] = []"
  by (simp add: scan_action)

lemma scan_action_hit:
  assumes "take (length kw) s = kw" "length kw < length s" "word_end (s ! length kw)"
  shows "scan (action_re kw) adv s =
           Hit (kw @ [s ! length kw]) # scan (action_re kw) False (drop (Suc (length kw)) s)"
proof -
  from assms have "take (Suc (length kw)) s = kw @ [s ! length kw]"
    by (simp add: take_Suc_conv_app_nth)
  with assms show ?thesis
    by (cases s) (simp_all add: scan_action [of kw adv])
qed

lemma scan_action_gap:
  assumes "\<not> (take (length kw) (x # xs) = kw \<and> length kw < length (x # xs) \<and>
              word_end ((x # xs) ! length kw))"
  shows "scan (action_re kw) adv (x # xs) = Gap x # scan (action_re kw) False xs"
  using assms by (simp add: scan_action [of kw adv "x # xs"])

lemma hits_action_form:
  "m \<in> set (hits (scan (action_re kw) adv s)) \<Longrightarrow> \<exists>c. word_end c \<and> m = kw @ [c]"
proof (induction s arbitrary: adv rule: length_induct)
  case (1 s)
  let ?n = "length kw"
  show ?case
  proof (cases s)
    case Nil
    with "1.prems" show ?thesis by (simp add: scan_action_nil)
  next
    case (Cons x xs)
    show ?thesis
    proof (cases "take ?n s = kw \<and> ?n < length s \<and> word_end (s ! ?n)")
      case True
      then have eq: "scan (action_re kw) adv s =
           Hit (kw @ [s ! ?n]) # scan (action_re kw) False (drop (Suc ?n) s)"
        by (simp add: scan_action_hit)
      from "1.prems" have "m = kw @ [s ! ?n] \<or>
          m \<in> set (hits (scan (action_re kw) False (drop (Suc ?n) s)))"
        unfolding eq by simp
      then show ?thesis
      proof
        assume "m = kw @ [s ! ?n]"
        with True show ?thesis by blast
      next
        assume a: "m \<in> set (hits (scan (action_re kw) False (drop (Suc ?n) s)))"
        have "length (drop (Suc ?n) s) < length s" using Cons by simp
        with "1.IH" a show ?thesis by blast
      qed
    next
      case False
      then have eq: "scan (action_re kw) adv (x # xs) = Gap x # scan (action_re kw) False xs"
        unfolding Cons by (rule scan_action_gap)
      from "1.prems" have a: "m \<in> set (hits (scan (action_re kw) False xs))"
        unfolding Cons eq by simp
      have "length xs < length s" using Cons by simp
      with "1.IH" a show ?thesis by blast
    qed
  qed
qed

lemma hits_action_none:
  "\<forall>x\<in>set w. \<not> word_end x \<Longrightarrow> hits (scan (action_re kw) adv w) = []"
proof (induction w arbitrary: adv)
  case Nil
  then show ?case by (simp add: scan_action_nil)
next
  case (Cons x w)
  have "\<not> (take (length kw) (x # w) = kw \<and> length kw < length (x # w) \<and>
           word_end ((x # w) ! length kw))"
    using Cons.prems nth_mem [of "length kw" "x # w"] by blast
  then have "scan (action_re kw) adv (x # w) = Gap x # scan (action_re kw) False w"
    by (rule scan_action_gap)
  moreover have "hits (scan (action_re kw) False w) = []"
    using Cons by simp
  ultimately show ?case by simp
qed

lemma hits_action_tail:
  "\<forall>x\<in>set w. \<not> word_end x \<Longrightarrow>
     hits (scan (action_re kw) adv (pre @ w)) = hits (scan (action_re kw) adv pre)"
proof (induction pre arbitrary: adv rule: length_induct)
  case (1 pre)
  let ?n = "length kw"
  let ?A = "action_re kw"
  show ?case
  proof (cases pre)
    case Nil
    with "1.prems" show ?thesis by (simp add: hits_action_none scan_action_nil)
  next
    case (Cons x xs)
    let ?s = "pre @ w"
    have in_pre: "?n < length pre" if "?n < length ?s" "word_end (?s ! ?n)"
    proof (rule ccontr)
      assume "\<not> ?n < length pre"
      then have "?s ! ?n = w ! (?n - length pre)" "?n - length pre < length w"
        using that by (auto simp: nth_append)
      then have "?s ! ?n \<in> set w" by simp
      with "1.prems" that show False by blast
    qed
    have same: "(take ?n ?s = kw \<and> ?n < length ?s \<and> word_end (?s ! ?n)) \<longleftrightarrow>
       (take ?n pre = kw \<and> ?n < length pre \<and> word_end (pre ! ?n))"
      using in_pre by (auto simp: nth_append)
    show ?thesis
    proof (cases "take ?n pre = kw \<and> ?n < length pre \<and> word_end (pre ! ?n)")
      case True
      then have l: "length (drop (Suc ?n) pre) < length pre" using Cons by simp
      from True have d: "drop (Suc ?n) ?s = drop (Suc ?n) pre @ w"
        and t: "?s ! ?n = pre ! ?n" by (simp_all add: nth_append)
      have ih: "hits (scan ?A False (drop (Suc ?n) pre @ w)) =
            hits (scan ?A False (drop (Suc ?n) pre))"
        using "1.IH" l "1.prems" by blast
      from True have e1: "scan ?A adv pre = Hit (kw @ [pre ! ?n]) # scan ?A False (drop (Suc ?n) pre)"
        by (simp add: scan_action_hit)
      from True same have "take ?n ?s = kw \<and> ?n < length ?s \<and> word_end (?s ! ?n)" by blast
      then have e2: "scan ?A adv ?s = Hit (kw @ [?s ! ?n]) # scan ?A False (drop (Suc ?n) ?s)"
        by (simp only: scan_action_hit)
      show ?thesis unfolding e1 e2 d t by (simp add: ih)
    next
      case False
      have ih: "hits (scan ?A False (xs @ w)) = hits (scan ?A False xs)"
        using "1.IH" Cons "1.prems" by simp
      from False have e1: "scan ?A adv (x # xs) = Gap x # scan ?A False xs"
        unfolding Cons by (rule scan_action_gap)
      from False same have "\<not> (take ?n ?s = kw \<and> ?n < length ?s \<and> word_end (?s ! ?n))" by blast
      then have e2: "scan ?A adv (x # (xs @ w)) = Gap x # scan ?A False (xs @ w)"
        unfolding Cons append_Cons by (rule scan_action_gap)
      show ?thesis unfolding Cons append_Cons e1 e2 by (simp add: ih)
    qed
  qed
qed

lemma hits_action_member:
  assumes "\<forall>x\<in>set kw. \<not> word_end x" "kw \<noteq> []" "word_end c"
  shows "kw @ [c] \<in> set (hits (scan (action_re kw) adv (pre @ kw @ c # rest)))"
proof (induction pre arbitrary: adv rule: length_induct)
  case (1 pre)
  let ?n = "length kw"
  let ?A = "action_re kw"
  let ?s = "pre @ kw @ c # rest"
  show ?case
  proof (cases "take ?n ?s = kw \<and> ?n < length ?s \<and> word_end (?s ! ?n)")
    case True
    then have e: "scan ?A adv ?s = Hit (kw @ [?s ! ?n]) # scan ?A False (drop (Suc ?n) ?s)"
      by (simp only: scan_action_hit)
    show ?thesis
    proof (cases "pre = []")
      case True
      then have "?s ! ?n = c" by (simp add: nth_append)
      with e show ?thesis by simp
    next
      case False
      have "?n < length pre"
      proof (rule ccontr)
        assume n: "\<not> ?n < length pre"
        with False have "?n - length pre < ?n" by (cases pre) auto
        with n have "?s ! ?n = kw ! (?n - length pre)" "?n - length pre < length kw"
          by (auto simp: nth_append)
        then have "?s ! ?n \<in> set kw" by simp
        with assms(1) True show False by blast
      qed
      then have d: "drop (Suc ?n) ?s = drop (Suc ?n) pre @ kw @ c # rest"
        and l: "length (drop (Suc ?n) pre) < length pre" by simp_all
      from "1.IH" l
      have "kw @ [c] \<in> set (hits (scan ?A False (drop (Suc ?n) pre @ kw @ c # rest)))"
        by blast
      then show ?thesis unfolding e d by simp
    qed
  next
    case False
    then have "pre \<noteq> []" using assms(3) by (auto simp: nth_append)
    then obtain x xs where pre: "pre = x # xs" by (cases pre) auto
    from False have e: "scan ?A adv (x # (xs @ kw @ c # rest)) =
        Gap x # scan ?A False (xs @ kw @ c # rest)"
      unfolding pre append_Cons by (rule scan_action_gap)
    from "1.IH" pre have "kw @ [c] \<in> set (hits (scan ?A False (xs @ kw @ c # rest)))"
      by simp
    then show ?thesis unfolding pre append_Cons e by simp
  qed
qed

lemma action_keywords_plain:
  "(label, kw) \<in> set ACTION_KEYWORDS \<Longrightarrow> kw \<noteq> [] \<and> (\<forall>x\<in>set kw. \<not> word_end x)"
  by (auto simp: ACTION_KEYWORDS_def word_end_def WORD_END_def is_space_def)

lemma fold_append_concat: "fold (\<lambda>p r. r @ f p) ps acc = acc @ concat (map f ps)"
  by (induction ps arbitrary: acc) simp_all

lemma apply_filter_concat:
  "apply_filter_on_text txt filters = concat (map (\<lambda>p. findall p txt) (map snd filters))"
  by (simp add: apply_filter_on_text_def fold_append_concat)

lemma get_actions_concat:
  "get_actions_from_text txt =
     concat (map (\<lambda>(label, kw). findall (action_re kw) txt) ACTION_KEYWORDS)"
  by (simp add: get_actions_from_text_def apply_filter_concat ACTION_RES_def o_def
      case_prod_unfold)

lemma match_at_action:
  "match_at (action_re kw) (kw @ c # rest) = (if word_end c then Some (kw @ [c]) else None)"
  by (simp add: match_at_def backtrack_action nth_append)

lemma match_at_plain:
  "\<forall>x\<in>set w. \<not> word_end x \<Longrightarrow> match_at (action_re kw) w = None"
  using nth_mem [of "length kw" w] by (auto simp: match_at_def backtrack_action)

lemma set_kw: "(''SET_RE'', [0x5E7, 0x5D1, 0x5E2]) \<in> set ACTION_KEYWORDS"
  by (simp add: ACTION_KEYWORDS_def)

lemma actions_example:
  "get_actions_from_text [0x5E7, 0x5D1, 0x5E2, 0x5D5, 0x20, 0x5E7, 0x5D1, 0x5E2, 0x2E, 0x20] =
     [[0x5E7, 0x5D1, 0x5E2, 0x2E]]"
  by (simp add: eval_details)

text \<open>
  C6. For each action pattern, at an occurrence of its keyword followed by a character:
  the pattern matches there exactly when that character is a space, a period, a comma, a
  semicolon or white space, and then the match is the keyword with that character, which
  \<open>re.findall\<close> and \<open>get_actions_from_text\<close> return wherever the occurrence lies in the
  text; followed by any other character (the keyword as the prefix of a longer word) the
  pattern does not match there, and nothing \<open>re.findall\<close> returns for the pattern is other
  than the keyword with one such character.
\<close>

theorem action_word_boundary:
  assumes "(label, kw) \<in> set ACTION_KEYWORDS"
  shows "(label, action_re kw) \<in> set ACTION_RES \<and>
         (word_end c \<longleftrightarrow> c = 0x20 \<or> c = 0x2E \<or> c = 0x2C \<or> c = 0x3B \<or> is_space c) \<and>
         match_at (action_re kw) (kw @ c # rest) =
           (if word_end c then Some (kw @ [c]) else None) \<and>
         (word_end c \<longrightarrow>
            kw @ [c] \<in> set (findall (action_re kw) (pre @ kw @ c # rest)) \<and>
            kw @ [c] \<in> set (get_actions_from_text (pre @ kw @ c # rest))) \<and>
         (\<forall>m\<in>set (findall (action_re kw) txt). \<exists>b. word_end b \<and> m = kw @ [b])"
proof -
  note k = action_keywords_plain [OF assms]
  have 1: "(label, action_re kw) \<in> set ACTION_RES"
    using assms by (force simp: ACTION_RES_def)
  have 2: "kw @ [c] \<in> set (findall (action_re kw) (pre @ kw @ c # rest))" if "word_end c"
    unfolding findall_def using k that by (simp add: hits_action_member)
  have 3: "kw @ [c] \<in> set (get_actions_from_text (pre @ kw @ c # rest))" if "word_end c"
    using 2 [OF that] assms by (force simp: get_actions_concat)
  have 4: "\<forall>m\<in>set (findall (action_re kw) txt). \<exists>b. word_end b \<and> m = kw @ [b]"
    unfolding findall_def using hits_action_form by blast
  from 1 2 3 4 show ?thesis by (simp add: match_at_action word_end_iff)
qed

theorem action_word_boundary_witness:
  "match_at (action_re [0x5E7, 0x5D1, 0x5E2]) ([0x5E7, 0x5D1, 0x5E2] @ 0x2E # [0x20]) =
     Some [0x5E7, 0x5D1, 0x5E2, 0x2E] \<and>
   match_at (action_re [0x5E7, 0x5D1, 0x5E2]) ([0x5E7, 0x5D1, 0x5E2] @ 0x5D5 # [0x20]) = None \<and>
   [0x5E7, 0x5D1, 0x5E2] @ [0x2E] \<in> set (get_actions_from_text
      ([0x5E7, 0x5D1, 0x5E2, 0x5D5, 0x20] @ [0x5E7, 0x5D1, 0x5E2] @ 0x2E # [0x20]))"
proof -
  have a: "word_end 0x2E" and b: "\<not> word_end 0x5D5"
    by (simp_all add: word_end_iff is_space_def)
  from action_word_boundary [OF set_kw, of "0x2E" "[0x20]" "[0x5E7, 0x5D1, 0x5E2, 0x5D5, 0x20]"]
    action_word_boundary [OF set_kw, of "0x5D5" "[0x20]"] a b
  show ?thesis by simp
qed

text \<open>
  C10. An action keyword that ends the text is matched by no action pattern: none matches
  the keyword alone, and the text yields the same actions with and without it.
\<close>

theorem keyword_at_end_not_matched:
  assumes "(label, kw) \<in> set ACTION_KEYWORDS"
  shows "(\<forall>(l, p)\<in>set ACTION_RES. match_at p kw = None) \<and>
         get_actions_from_text (pre @ kw) = get_actions_from_text pre"
proof -
  note k = action_keywords_plain [OF assms]
  then have "match_at (action_re kw') kw = None" for kw'
    by (simp add: match_at_plain)
  then have 1: "\<forall>(l, p)\<in>set ACTION_RES. match_at p kw = None"
    by (auto simp: ACTION_RES_def)
  have "findall (action_re kw') (pre @ kw) = findall (action_re kw') pre" for kw'
    unfolding findall_def using k by (simp add: hits_action_tail)
  then have 2: "get_actions_from_text (pre @ kw) = get_actions_from_text pre"
    by (simp add: get_actions_concat)
  from 1 2 show ?thesis by blast
qed

theorem keyword_at_end_not_matched_witness:
  "match_at (action_re [0x5E7, 0x5D1, 0x5E2]) [0x5E7, 0x5D1, 0x5E2] = None \<and>
   get_actions_from_text
     ([0x5E7, 0x5D1, 0x5E2, 0x5D5, 0x20, 0x5E7, 0x5D1, 0x5E2, 0x2E, 0x20] @ [0x5E7, 0x5D1, 0x5E2]) =
     [[0x5E7, 0x5D1, 0x5E2, 0x2E]]"
proof -
  have "(''SET_RE'', action_re [0x5E7, 0x5D1, 0x5E2]) \<in> set ACTION_RES"
    by (simp add: ACTION_RES_def ACTION_KEYWORDS_def)
  with keyword_at_end_not_matched [OF set_kw,
      of "[0x5E7, 0x5D1, 0x5E2, 0x5D5, 0x20, 0x5E7, 0x5D1, 0x5E2, 0x2E, 0x20]"]
  show ?thesis by (auto simp only: actions_example)
qed

section \<open>Citations\<close>

lemma rep_chars:
  "r \<in> set (backtrack [Rep a lo hi lazy] s) \<Longrightarrow>
     \<exists>m. s = m @ r \<and> (\<forall>c\<in>set m. atom_ok a c) \<and> lo \<le> length m"
proof (induction s arbitrary: lo hi)
  case Nil
  then show ?case by (simp split: if_splits)
next
  case (Cons c cs)
  from Cons.prems consider
    (more) "atom_ok a c"
      "r \<in> set (backtrack [Rep a (lo - 1) (map_option (\<lambda>h. h - 1) hi) lazy] cs)"
    | (stop) "lo = 0" "r = c # cs"
    by (auto simp: Let_def split: if_splits)
  then show ?case
  proof cases
    case more
    from Cons.IH [OF more(2)] obtain m where
      "cs = m @ r" "\<forall>c\<in>set m. atom_ok a c" "lo - 1 \<le> length m" by blast
    with more(1) have "c # cs = (c # m) @ r \<and> (\<forall>x\<in>set (c # m). atom_ok a x) \<and> lo \<le> length (c # m)"
      by auto
    then show ?thesis by blast
  next
    case stop
    then show ?thesis by simp
  qed
qed

lemma hits_origin:
  "m \<in> set (hits (scan p adv s)) \<Longrightarrow>
     \<exists>s' r. r \<in> set (backtrack p s') \<and> m = take (length s' - length r) s'"
proof (induction p adv s rule: scan.induct)
  case (1 p adv s)
  let ?f = "filter (\<lambda>r. adv \<longrightarrow> length r < length s) (backtrack p s)"
  note eq = scan.simps [of p adv s]
  show ?case
  proof (cases ?f)
    case f: Nil
    have g: "scan p adv s = (case s of [] \<Rightarrow> [] | c # cs \<Rightarrow> Gap c # scan p False cs)"
      by (subst eq) (simp only: f list.case)
    show ?thesis
    proof (cases s)
      case Nil
      with g "1.prems" show ?thesis by simp
    next
      case (Cons c cs)
      with g "1.prems" have "m \<in> set (hits (scan p False cs))" by simp
      with "1.IH"(1) [OF f Cons] show ?thesis .
    qed
  next
    case f: (Cons r rs)
    then have "r \<in> set ?f" by simp
    then have rb: "r \<in> set (backtrack p s)" by simp
    have g: "scan p adv s = Hit (take (length s - length r) s) #
          (if length r < length s then scan p False r else scan p True s)"
      by (subst eq) (simp only: f list.case)
    show ?thesis
    proof (cases "length r < length s")
      case True
      with g have "scan p adv s = Hit (take (length s - length r) s) # scan p False r"
        by simp
      with "1.prems"
      have "m = take (length s - length r) s \<or> m \<in> set (hits (scan p False r))" by simp
      then show ?thesis
      proof
        assume "m = take (length s - length r) s"
        with rb show ?thesis by blast
      next
        assume "m \<in> set (hits (scan p False r))"
        with "1.IH"(2) [OF f True] show ?thesis .
      qed
    next
      case False
      with g have "scan p adv s = Hit (take (length s - length r) s) # scan p True s"
        by simp
      with "1.prems"
      have "m = take (length s - length r) s \<or> m \<in> set (hits (scan p True s))" by simp
      then show ?thesis
      proof
        assume "m = take (length s - length r) s"
        with rb show ?thesis by blast
      next
        assume "m \<in> set (hits (scan p True s))"
        with "1.IH"(3) [OF f False] show ?thesis .
      qed
    qed
  qed
qed

lemma findall_match:
  "m \<in> set (findall p s) \<Longrightarrow> \<exists>s' r. r \<in> set (backtrack p s') \<and> s' = m @ r"
proof -
  assume "m \<in> set (findall p s)"
  then obtain s' r where r: "r \<in> set (backtrack p s')" and m: "m = take (length s' - length r) s'"
    unfolding findall_def using hits_origin by blast
  from backtrack_suffix [OF r] obtain m' where "s' = m' @ r" by blast
  with m have "s' = m @ r" by simp
  with r show ?thesis by blast
qed

lemma citation_match_ends_in_digit:
  assumes "r \<in> set (backtrack (citation_re kw) s)" "s = m @ r"
  shows "m \<noteq> [] \<and> digit (last m)"
proof -
  define front where "front = lit kw @ [lazy_star Any, opt (Class [Ch 0x5D4])] @ lit [0x5EA, 0x5E9] @
     [rep (Class [Rng 0x5D0 0x5EA, Ch 0x22]) 1 2, lazy_star Any]"
  have "citation_re kw = front @ [rep (Class [Rng 0x30 0x39]) 4 4]"
    by (simp add: citation_re_def front_def)
  with assms(1) obtain r' where r': "r' \<in> set (backtrack front s)"
    and r: "r \<in> set (backtrack [rep (Class [Rng 0x30 0x39]) 4 4] r')"
    by (auto simp: backtrack_append simp del: backtrack.simps)
  from backtrack_suffix [OF r'] obtain m0 where m0: "s = m0 @ r'" by blast
  from rep_chars [OF r] obtain m1 where m1: "r' = m1 @ r"
    "\<forall>c\<in>set m1. atom_ok (Class [Rng 0x30 0x39]) c" "4 \<le> length m1" by blast
  from m1(3) have ne: "m1 \<noteq> []" by auto
  from m0 m1(1) assms(2) have "m = m0 @ m1" by simp
  with ne m1(2) show ?thesis by (simp add: digit_def del: atom_ok.simps)
qed

lemma get_citations_member:
  "c \<in> set (get_citations_from_text txt) \<Longrightarrow> \<exists>kw. c \<in> set (findall (citation_re kw) txt)"
  by (auto simp: get_citations_from_text_def apply_filter_concat CITATION_RES_def)

lemma citation_ends_in_digit:
  "c \<in> set (get_citations_from_text txt) \<Longrightarrow> c \<noteq> [] \<and> digit (last c)"
  using get_citations_member findall_match citation_match_ends_in_digit by blast

lemma digit_not_trailing: "digit c \<Longrightarrow> \<not> is_trailing c"
  by (auto simp: digit_def is_trailing_iff is_space_def)

lemma strip_trailing_id: "c \<noteq> [] \<Longrightarrow> \<not> is_trailing (last c) \<Longrightarrow> strip_trailing c = c"
  by (cases c rule: rev_cases) (simp_all add: strip_trailing_def)

text \<open>
  C2. The citation collection of a law is what normalising every raw citation match,
  dropping those of 200 characters or more and sorting gives, and each of its elements is
  normalised: it is its own normalisation and ends in no terminator character.
  \<open>parse_laws\<close> itself sorts and filters the raw matches without calling
  \<open>remove_trailing_chars\<close> on them; the two agree because every citation pattern ends in
  \<open>[0-9]{4}\<close>, so that a raw match ends in a digit and the normaliser leaves it as it is.
\<close>

theorem citations_are_normalized:
  "citations (law_details txt) =
     sort (filter (\<lambda>x. length x < 200) (map remove_trailing_chars (get_citations_from_text txt))) \<and>
   (\<forall>c\<in>set (citations (law_details txt)).
      remove_trailing_chars c = c \<and> c \<noteq> [] \<and> \<not> is_trailing (last c))"
proof -
  have id: "remove_trailing_chars c = c \<and> c \<noteq> [] \<and> \<not> is_trailing (last c)"
    if "c \<in> set (get_citations_from_text txt)" for c
    using citation_ends_in_digit [OF that]
    by (simp add: remove_trailing_chars_eq strip_trailing_id digit_not_trailing)
  then have "map remove_trailing_chars (get_citations_from_text txt) = get_citations_from_text txt"
    by (simp add: map_idI)
  then have "citations (law_details txt) =
     sort (filter (\<lambda>x. length x < 200) (map remove_trailing_chars (get_citations_from_text txt)))"
    by (simp add: law_details_def LONGEST_POSSIBLE_CITATION_LENGTH_def Let_def filter_sort)
  moreover have "set (citations (law_details txt)) \<subseteq> set (get_citations_from_text txt)"
    by (auto simp: law_details_def Let_def)
  ultimately show ?thesis using id by blast
qed

theorem citations_are_normalized_witness:
  "citations (law_details
     [0x5D7, 0x5D5, 0x5E7, 0x20, 0x58, 0x20, 0x5EA, 0x5E9, 0x5DC, 0x22, 0x5D2, 0x20,
      0x31, 0x39, 0x37, 0x30, 0x2E]) =
     [[0x5D7, 0x5D5, 0x5E7, 0x20, 0x58, 0x20, 0x5EA, 0x5E9, 0x5DC, 0x22, 0x5D2, 0x20,
      0x31, 0x39, 0x37, 0x30]] \<and>
   remove_trailing_chars [0x5D7, 0x5D5, 0x5E7, 0x20, 0x58, 0x20, 0x5EA, 0x5E9, 0x5DC, 0x22, 0x5D2,
      0x20, 0x31, 0x39, 0x37, 0x30] =
     [0x5D7, 0x5D5, 0x5E7, 0x20, 0x58, 0x20, 0x5EA, 0x5E9, 0x5DC, 0x22, 0x5D2, 0x20,
      0x31, 0x39, 0x37, 0x30]"
proof -
  have c: "citations (law_details
     [0x5D7, 0x5D5, 0x5E7, 0x20, 0x58, 0x20, 0x5EA, 0x5E9, 0x5DC, 0x22, 0x5D2, 0x20,
      0x31, 0x39, 0x37, 0x30, 0x2E]) =
     [[0x5D7, 0x5D5, 0x5E7, 0x20, 0x58, 0x20, 0x5EA, 0x5E9, 0x5DC, 0x22, 0x5D2, 0x20,
      0x31, 0x39, 0x37, 0x30]]"
    by (simp add: law_details_def Let_def get_citations_example
        LONGEST_POSSIBLE_CITATION_LENGTH_def)
  from citations_are_normalized [of
     "[0x5D7, 0x5D5, 0x5E7, 0x20, 0x58, 0x20, 0x5EA, 0x5E9, 0x5DC, 0x22, 0x5D2, 0x20,
      0x31, 0x39, 0x37, 0x30, 0x2E]"]
  show ?thesis unfolding c by simp
qed

section \<open>Entity patterns\<close>




section \<open>Entity-entity edges\<close>
















lemma set_iteration_sorted: "set_iteration sorted_list_of_set"
  by (simp add: set_iteration_def)



section \<open>Listing tables\<close>

lemma enumerate_rows:
  "map (\<lambda>(idx, item). item @ [9] @ str_nat x @ [9] @ str_nat (idx + 1)) (enumerate n its) =
     rows_from x (Suc n) its"
  by (induction its arbitrary: n) simp_all

lemma iter_to_list_of_strings_eq:
  "iter_to_list_of_strings its x = HEADER # rows_from x 1 its"
  unfolding iter_to_list_of_strings_def using enumerate_rows [of x 0 its] by simp

lemma rows_from_length: "length (rows_from x y its) = length its"
  by (induction its arbitrary: y) simp_all

lemma rows_from_nth:
  "i < length its \<Longrightarrow>
     rows_from x y its ! i = its ! i @ [9] @ str_nat x @ [9] @ str_nat (y + i)"
  by (induction its arbitrary: y i) (auto simp: nth_Cons')

lemma str_nat_digits: "\<forall>c\<in>set (str_nat n). 48 \<le> c \<and> c \<le> 57"
proof (induction n rule: str_nat.induct)
  case (1 n)
  show ?case
  proof (cases "n < 10")
    case True
    then show ?thesis by (simp add: str_nat.simps [of n])
  next
    case False
    have "n mod 10 < 10" by simp
    then have "48 + n mod 10 \<le> 57" by linarith
    with False "1.IH" show ?thesis by (simp add: str_nat.simps [of n])
  qed
qed

lemma collapse_newlines_id: "10 \<notin> set s \<Longrightarrow> collapse_newlines s = s"
  by (induction s) auto

lemma rows_from_no_newline:
  "\<forall>item\<in>set its. 10 \<notin> set item \<Longrightarrow> \<forall>row\<in>set (rows_from x y its). 10 \<notin> set row"
proof (induction its arbitrary: y)
  case Nil
  then show ?case by simp
next
  case (Cons item its)
  have "10 \<notin> set (str_nat x)" "10 \<notin> set (str_nat y)"
    using str_nat_digits by fastforce+
  with Cons show ?case by simp
qed

lemma write_plain_lines:
  assumes "\<forall>row\<in>set rows. 10 \<notin> set row"
  shows "write_list_out fout rows =
     (if \<forall>row\<in>set rows. list_all utf8_ok row
      then Inr (fout @ concat (map (\<lambda>row. utf8_bytes row @ [13, 10]) rows))
      else Inl UnicodeEncodeError)"
proof -
  have "\<forall>row\<in>set rows. clean_list_item row = row"
    using assms by (simp add: clean_list_item_eq collapse_newlines_id)
  then have "map (\<lambda>e. utf8_bytes (clean_list_item e) @ [13, 10]) rows =
      map (\<lambda>row. utf8_bytes row @ [13, 10]) rows"
    and "(\<forall>e\<in>set rows. list_all utf8_ok (clean_list_item e)) \<longleftrightarrow>
      (\<forall>row\<in>set rows. list_all utf8_ok row)"
    by simp_all
  then show ?thesis by (simp only: write_list_out_eq)
qed

lemma listing_eq:
  assumes "set_iteration it" "finite items"
  shows "distinct (it (clean_list_item ` items)) \<and>
         set (it (clean_list_item ` items)) = clean_list_item ` items \<and>
         listing it items x =
           (let rows = HEADER # rows_from x 1 (it (clean_list_item ` items))
            in if \<forall>row\<in>set rows. list_all utf8_ok row
               then Inr (concat (map (\<lambda>row. utf8_bytes row @ [13, 10]) rows))
               else Inl UnicodeEncodeError)"
proof -
  let ?its = "it (clean_list_item ` items)"
  from assms have d: "distinct ?its" and s: "set ?its = clean_list_item ` items"
    by (simp_all add: set_iteration_def)
  from s have "\<forall>item\<in>set ?its. 10 \<notin> set item"
    by (auto simp: clean_list_item_eq collapse_newlines_no_newline)
  then have "\<forall>row\<in>set (rows_from x 1 ?its). 10 \<notin> set row"
    by (rule rows_from_no_newline)
  moreover have "10 \<notin> set HEADER" by (simp add: HEADER_def)
  ultimately have "\<forall>row\<in>set (HEADER # rows_from x 1 ?its). 10 \<notin> set row" by simp
  from write_plain_lines [OF this, of "[]"] d s show ?thesis
    by (simp add: listing_def iter_to_list_of_strings_eq Let_def)
qed

lemma writers_are_listings:
  assumes "set_iteration it"
  shows "finite items \<Longrightarrow> write_all_actions it items = listing it items ACTIONS_X"
    and "finite items \<Longrightarrow> write_all_entities it items = listing it items ENTITIES_X"
    and "finite items \<Longrightarrow> write_all_citations it items = listing it items CITATIONS_X"
    and "write_all_laws it names = listing it (set names) LAWS_X"
  using assms
  by (simp_all add: write_all_actions_def write_all_entities_def write_all_citations_def
      write_all_laws_def listing_def set_iteration_def Let_def)

lemma citation_spanning_newline:
  "get_citations_from_text
     [0x5D7, 0x5D5, 0x5E7, 10, 0x58, 0x20, 0x5EA, 0x5E9, 0x5DC, 0x22, 0x5D2, 0x20,
      0x31, 0x39, 0x37, 0x30, 0x2E] =
   [[0x5D7, 0x5D5, 0x5E7, 10, 0x58, 0x20, 0x5EA, 0x5E9, 0x5DC, 0x22, 0x5D2, 0x20,
      0x31, 0x39, 0x37, 0x30]]"
  by (simp add: get_citations_from_text_def CITATION_RES_def citation_re_def eval_scan)

lemma clean_a_nl_b: "clean_list_item [0x61, 10, 0x62] = [0x61, 0x20, 0x62]"
  by (simp add: clean_list_item_def eval_scan)

lemma clean_a_sp_b: "clean_list_item [0x61, 0x20, 0x62] = [0x61, 0x20, 0x62]"
  by (simp add: clean_list_item_def eval_scan)

text \<open>
  C8, as stated, fails: the rows are made of the set of the cleaned items, so two items that
  differ only in a run of newlines, as two citations that span lines can, share one row.
  Here the listing of two citations has one row after the header.
\<close>

theorem listing_rows_counterexample:
  "card {[0x61, 10, 0x62], [0x61, 0x20, 0x62 :: nat]} = 2 \<and>
   write_all_citations sorted_list_of_set {[0x61, 10, 0x62], [0x61, 0x20, 0x62]} =
     Inr ([0x49, 0x64, 9, 0x78, 0x5F, 0x63, 0x6F, 0x6F, 0x72, 0x64, 9,
           0x79, 0x5F, 0x63, 0x6F, 0x6F, 0x72, 0x64, 13, 10] @
          [0x61, 0x20, 0x62, 9, 0x34, 0x30, 9, 0x31, 13, 10])"
proof -
  have f: "finite {[0x61, 10, 0x62], [0x61, 0x20, 0x62 :: nat]}" by simp
  have w: "write_all_citations sorted_list_of_set {[0x61, 10, 0x62], [0x61, 0x20, 0x62]} =
      listing sorted_list_of_set {[0x61, 10, 0x62], [0x61, 0x20, 0x62]} CITATIONS_X"
    using writers_are_listings(3) [OF set_iteration_sorted f] .
  from listing_eq [OF set_iteration_sorted f, of CITATIONS_X]
  show ?thesis unfolding w
    by (simp add: Let_def clean_a_nl_b clean_a_sp_b HEADER_def CITATIONS_X_def str_nat.simps
        utf8_ok_def utf8_bytes_def utf8_char_def)
qed

text \<open>
  C8, amended. Each of the four listings is the header row \<open>Id TAB x_coord TAB y_coord\<close>
  followed by one row per distinct cleaned item, that is per distinct value of
  \<open>clean_list_item\<close> on the items (items that differ only in runs of newlines share a row):
  the cleaned item, a tab, the X coordinate of the listing, a tab and the position of the
  row counted from 1. The file holds exactly these rows, each followed by CR LF, and the
  four X coordinates differ.
\<close>

theorem listing_tables:
  assumes "set_iteration it" "finite items"
  shows "write_all_actions it items = listing it items ACTIONS_X \<and>
         write_all_entities it items = listing it items ENTITIES_X \<and>
         write_all_citations it items = listing it items CITATIONS_X \<and>
         write_all_laws it names = listing it (set names) LAWS_X \<and>
         distinct [ACTIONS_X, ENTITIES_X, LAWS_X, CITATIONS_X] \<and>
         (let its = it (clean_list_item ` items); rows = iter_to_list_of_strings its x
          in distinct its \<and> set its = clean_list_item ` items \<and>
             length rows = 1 + card (clean_list_item ` items) \<and>
             rows ! 0 = HEADER \<and>
             (\<forall>i<length its.
                rows ! (i + 1) = its ! i @ [9] @ str_nat x @ [9] @ str_nat (i + 1)) \<and>
             listing it items x =
               (if \<forall>row\<in>set rows. list_all utf8_ok row
                then Inr (concat (map (\<lambda>row. utf8_bytes row @ [13, 10]) rows))
                else Inl UnicodeEncodeError))"
proof -
  let ?its = "it (clean_list_item ` items)"
  note l = listing_eq [OF assms, of x]
  then have "length ?its = card (clean_list_item ` items)"
    using distinct_card [of ?its] by simp
  then have 1: "length (iter_to_list_of_strings ?its x) = 1 + card (clean_list_item ` items)"
    by (simp add: iter_to_list_of_strings_eq rows_from_length)
  have 2: "\<forall>i<length ?its. iter_to_list_of_strings ?its x ! (i + 1) =
      ?its ! i @ [9] @ str_nat x @ [9] @ str_nat (i + 1)"
    by (simp add: iter_to_list_of_strings_eq rows_from_nth)
  have 3: "distinct [ACTIONS_X, ENTITIES_X, LAWS_X, CITATIONS_X]"
    by (simp add: ACTIONS_X_def ENTITIES_X_def LAWS_X_def CITATIONS_X_def)
  from l 1 2 3 writers_are_listings [OF assms(1)] assms(2) show ?thesis
    by (simp add: Let_def iter_to_list_of_strings_eq)
qed

lemma clean_c: "clean_list_item [0x63] = [0x63]"
  by (simp add: clean_list_item_def eval_scan)

lemma clean_ab: "clean_list_item [0x61, 10, 10, 0x62] = [0x61, 0x20, 0x62]"
  by (simp add: clean_list_item_def eval_scan)

lemma sorted_two: "sorted_list_of_set {[0x63], [0x61, 0x20, 0x62 :: nat]} = [[0x61, 0x20, 0x62], [0x63]]"
  by (simp add: insort_key.simps)

theorem listing_tables_witness:
  "write_all_actions sorted_list_of_set {[0x63], [0x61, 10, 10, 0x62]} =
     Inr ([0x49, 0x64, 9, 0x78, 0x5F, 0x63, 0x6F, 0x6F, 0x72, 0x64, 9,
           0x79, 0x5F, 0x63, 0x6F, 0x6F, 0x72, 0x64, 13, 10] @
          [0x61, 0x20, 0x62, 9, 0x31, 0x30, 9, 0x31, 13, 10] @
          [0x63, 9, 0x31, 0x30, 9, 0x32, 13, 10])"
proof -
  have f: "finite {[0x63], [0x61, 10, 10, 0x62 :: nat]}" by simp
  from listing_tables [OF set_iteration_sorted f, of "[]" ACTIONS_X]
  show ?thesis
    by (simp add: Let_def clean_c clean_ab sorted_two iter_to_list_of_strings_eq HEADER_def
        ACTIONS_X_def str_nat.simps utf8_ok_def utf8_bytes_def utf8_char_def)
qed

end
